theory Spec2Isabelle
  imports Complex_Main
begin

section \<open>Scalars\<close>

text \<open>
  The matrix engine stores C \<^verbatim>\<open>float\<close> values.  A value is a NaN, an infinity or a finite
  real; the finite values that arise at run time are the binary32 numbers, and every
  arithmetic operation below rounds its result to one.  Comparisons are the IEEE 754
  ones: every ordered comparison with a NaN is false.  Signed zeros are not
  distinguished (they compare equal in C as well).
\<close>

datatype cfloat = NaN | NInf | Fin real | PInf

fun isnan :: "cfloat \<Rightarrow> bool" where
  "isnan NaN = True"
| "isnan _ = False"

fun isfinite :: "cfloat \<Rightarrow> bool" where
  "isfinite (Fin _) = True"
| "isfinite _ = False"

text \<open>\<^verbatim>\<open>a < b\<close> on floats.\<close>

fun flt_lt :: "cfloat \<Rightarrow> cfloat \<Rightarrow> bool" where
  "flt_lt NaN _ = False"
| "flt_lt _ NaN = False"
| "flt_lt (Fin a) (Fin b) = (a < b)"
| "flt_lt NInf NInf = False"
| "flt_lt NInf _ = True"
| "flt_lt PInf _ = False"
| "flt_lt (Fin a) PInf = True"
| "flt_lt (Fin a) NInf = False"

text \<open>\<^verbatim>\<open>a == b\<close> and \<^verbatim>\<open>a <= b\<close> on floats.\<close>

definition flt_eq :: "cfloat \<Rightarrow> cfloat \<Rightarrow> bool" where
  "flt_eq a b = (\<not> isnan a \<and> \<not> isnan b \<and> a = b)"

definition flt_le :: "cfloat \<Rightarrow> cfloat \<Rightarrow> bool" where
  "flt_le a b = (flt_lt a b \<or> flt_eq a b)"

section \<open>Padded matrix\<close>

text \<open>
  \<^verbatim>\<open>scrappie_matrix\<close> points to a struct with the logical row count \<open>nr\<close>, the number
  \<open>nrq\<close> of 4-wide lane groups per column, the column count \<open>nc\<close> and the buffer
  \<open>data\<close>, seen as scalars (\<^verbatim>\<open>data.f\<close>) or as lane groups (\<^verbatim>\<open>data.v\<close>, group \<open>k\<close>
  being the scalars \<open>4k .. 4k+3\<close>).  A \<^verbatim>\<open>const_scrappie_matrix\<close> argument is modelled by
  the struct it points to, \<open>None\<close> for \<^verbatim>\<open>NULL\<close>.
\<close>

record scrappie_matrix =
  nr :: int
  nrq :: int
  nc :: int
  data :: "cfloat list"

text \<open>\<^verbatim>\<open>(int)ceil(nr / 4.0)\<close>; the division is exact in \<^verbatim>\<open>double\<close> for every \<^verbatim>\<open>int\<close>.\<close>

definition nrq_of :: "int \<Rightarrow> int" where
  "nrq_of n = \<lceil>real_of_int n / 4\<rceil>"

text \<open>
  The shape invariant that allocation establishes: positive dimensions,
  \<open>nrq = ceil (nr / 4)\<close>, a buffer of \<open>4 * nrq * nc\<close> scalars, and a scalar count that an
  \<^verbatim>\<open>int\<close> holds, so that the offset computations of the code do not overflow.  The
  functions that read a matrix index its buffer with \<open>!\<close>; for a well-formed matrix every
  index they use is inside the buffer, and outside it C leaves the behaviour undefined.
\<close>

definition wf_matrix :: "scrappie_matrix \<Rightarrow> bool" where
  "wf_matrix m =
     (0 < nr m \<and> 0 < nc m \<and> nrq m = nrq_of (nr m) \<and>
      int (length (data m)) = 4 * nrq m * nc m \<and> 4 * nrq m * nc m \<le> 2147483647)"

text \<open>Scalar offset of logical element \<open>(r, col)\<close>: \<^verbatim>\<open>col * x->nrq * 4 + r\<close>.\<close>

definition elt_offset :: "scrappie_matrix \<Rightarrow> nat \<Rightarrow> nat \<Rightarrow> nat" where
  "elt_offset x col r = col * nat (nrq x) * 4 + r"

subsection \<open>Reductions\<close>

text \<open>
  The body of the inner loops of \<^verbatim>\<open>max_scrappie_matrix\<close> and \<^verbatim>\<open>min_scrappie_matrix\<close>:
  \<^verbatim>\<open>if (amax < x->data.f[offset + r]) amax = x->data.f[offset + r];\<close>
  Both functions have the same body in the source.
\<close>

definition max_step :: "cfloat list \<Rightarrow> nat \<Rightarrow> cfloat \<Rightarrow> cfloat" where
  "max_step d k amax = (if flt_lt amax (d ! k) then d ! k else amax)"

definition max_scrappie_matrix :: "scrappie_matrix option \<Rightarrow> cfloat" where
  "max_scrappie_matrix x =
     (case x of
        None \<Rightarrow> NaN
      | Some m \<Rightarrow>
          fold (\<lambda>col amax.
                  let offset = col * nat (nrq m) * 4
                  in fold (\<lambda>r. max_step (data m) (offset + r)) [0..<nat (nr m)] amax)
               [0..<nat (nc m)] (data m ! 0))"

definition min_step :: "cfloat list \<Rightarrow> nat \<Rightarrow> cfloat \<Rightarrow> cfloat" where
  "min_step d k amin = (if flt_lt amin (d ! k) then d ! k else amin)"

definition min_scrappie_matrix :: "scrappie_matrix option \<Rightarrow> cfloat" where
  "min_scrappie_matrix x =
     (case x of
        None \<Rightarrow> NaN
      | Some m \<Rightarrow>
          fold (\<lambda>col amin.
                  let offset = col * nat (nrq m) * 4
                  in fold (\<lambda>r. min_step (data m) (offset + r)) [0..<nat (nr m)] amin)
               [0..<nat (nc m)] (data m ! 0))"

text \<open>
  The inner loop body of \<^verbatim>\<open>argmax_scrappie_matrix\<close> and \<^verbatim>\<open>argmin_scrappie_matrix\<close>, on the
  pair of the running extremum and its offset.
\<close>

definition argmax_step :: "cfloat list \<Rightarrow> nat \<Rightarrow> cfloat \<times> nat \<Rightarrow> cfloat \<times> nat" where
  "argmax_step d k st = (if flt_lt (fst st) (d ! k) then (d ! k, k) else st)"

definition argmax_scrappie_matrix :: "scrappie_matrix option \<Rightarrow> int" where
  "argmax_scrappie_matrix x =
     (case x of
        None \<Rightarrow> - 1
      | Some m \<Rightarrow>
          int (snd (fold (\<lambda>col st.
                  let offset = col * nat (nrq m) * 4
                  in fold (\<lambda>r. argmax_step (data m) (offset + r)) [0..<nat (nr m)] st)
               [0..<nat (nc m)] (data m ! 0, 0))))"

definition argmin_step :: "cfloat list \<Rightarrow> nat \<Rightarrow> cfloat \<times> nat \<Rightarrow> cfloat \<times> nat" where
  "argmin_step d k st = (if flt_lt (fst st) (d ! k) then (d ! k, k) else st)"

definition argmin_scrappie_matrix :: "scrappie_matrix option \<Rightarrow> int" where
  "argmin_scrappie_matrix x =
     (case x of
        None \<Rightarrow> - 1
      | Some m \<Rightarrow>
          int (snd (fold (\<lambda>col st.
                  let offset = col * nat (nrq m) * 4
                  in fold (\<lambda>r. argmin_step (data m) (offset + r)) [0..<nat (nr m)] st)
               [0..<nat (nc m)] (data m ! 0, 0))))"


text \<open>The matrix of the specification's example, \<open>nr = nc = 2\<close>, read with columns
  \<open>[1,5]\<close> and \<open>[3,2]\<close>, and read with rows \<open>[1,5]\<close> and \<open>[3,2]\<close>.\<close>

definition ex_cols :: scrappie_matrix where
  "ex_cols = \<lparr>nr = 2, nrq = 1, nc = 2,
      data = [Fin 1, Fin 5, Fin 0, Fin 0, Fin 3, Fin 2, Fin 0, Fin 0]\<rparr>"

definition ex_rows :: scrappie_matrix where
  "ex_rows = \<lparr>nr = 2, nrq = 1, nc = 2,
      data = [Fin 1, Fin 3, Fin 0, Fin 0, Fin 5, Fin 2, Fin 0, Fin 0]\<rparr>"


section \<open>Float arithmetic\<close>

text \<open>
  \<^verbatim>\<open>float\<close> is IEEE 754 binary32 and every operation is a single SSE operation in the
  default rounding mode: the exact result is rounded to the nearest binary32 number, a
  tie going to the even significand, with gradual underflow, and a result that rounds
  beyond the largest binary32 number becomes an infinity.  The sign of a zero is not
  modelled; a zero divisor behaves as \<open>+0.0\<close>.
\<close>

text \<open>The infinity with the sign of a real number (a zero counts as positive).\<close>

definition inf_of_sign :: "real \<Rightarrow> cfloat" where
  "inf_of_sign s = (if s < 0 then NInf else PInf)"

text \<open>The nearest integer, a tie going to the even one.\<close>

definition rne :: "real \<Rightarrow> int" where
  "rne t =
     (let f = \<lfloor>t\<rfloor> in
      if t - of_int f < 1 / 2 then f
      else if 1 / 2 < t - of_int f then f + 1
      else if even f then f else f + 1)"

text \<open>
  The exponent of a magnitude: \<open>binade k e ax\<close> is the first exponent \<open>e'\<close> from \<open>e\<close>
  upwards with \<open>ax < 2 powi (e' + 1)\<close>, and \<open>e + k\<close> when the \<open>k\<close> exponents before it all
  fail.  The search starts at \<open>-126\<close>, the exponent of the smallest normal numbers, which
  the subnormal numbers share.
\<close>

fun binade :: "nat \<Rightarrow> int \<Rightarrow> real \<Rightarrow> int" where
  "binade 0 e ax = e"
| "binade (Suc k) e ax = (if ax < 2 powi (e + 1) then e else binade k (e + 1) ax)"

text \<open>
  Rounding of a real number to binary32.  With the exponent \<open>e\<close> of the number, the
  binary32 numbers around it are the multiples of \<open>2 powi (e - 23)\<close>; the number is
  rounded to the nearest of them, and to an infinity when that multiple reaches
  \<open>2 ^ 128\<close>.
\<close>

definition round32 :: "real \<Rightarrow> cfloat" where
  "round32 x =
     (let e = binade 254 (- 126) \<bar>x\<bar>;
          ulp = 2 powi (e - 23);
          y = of_int (rne (x / ulp)) * ulp
      in if 2 ^ 128 \<le> \<bar>y\<bar> then inf_of_sign x else Fin y)"

text \<open>Conversion of an \<^verbatim>\<open>int\<close> to \<^verbatim>\<open>float\<close>, as in the comparison of an \<^verbatim>\<open>int\<close> with a
  \<^verbatim>\<open>float\<close>.\<close>

definition float_of_int :: "int \<Rightarrow> cfloat" where
  "float_of_int i = round32 (of_int i)"


fun fadd :: "cfloat \<Rightarrow> cfloat \<Rightarrow> cfloat" where
  "fadd NaN _ = NaN"
| "fadd _ NaN = NaN"
| "fadd (Fin a) (Fin b) = round32 (a + b)"
| "fadd PInf NInf = NaN"
| "fadd NInf PInf = NaN"
| "fadd PInf _ = PInf"
| "fadd NInf _ = NInf"
| "fadd (Fin a) PInf = PInf"
| "fadd (Fin a) NInf = NInf"





text \<open>\<^verbatim>\<open>FLT_EPSILON\<close> of \<^verbatim>\<open><float.h>\<close>, \<open>2\<^sup>-\<^sup>2\<^sup>3\<close> for binary32.\<close>

definition FLT_EPSILON :: cfloat where
  "FLT_EPSILON = Fin (1 / 8388608)"

section \<open>Machine integers, errors and memory\<close>

text \<open>
  \<^verbatim>\<open>int\<close> has 32 bits and \<^verbatim>\<open>size_t\<close> 64 bits (the LP64 targets of the SSE code).
  Conversion to \<^verbatim>\<open>size_t\<close> and \<^verbatim>\<open>size_t\<close> arithmetic reduce modulo \<open>2\<^sup>6\<^sup>4\<close>.  Overflow of a
  signed multiplication is undefined in C; the model takes the two's complement
  wrap-around.
\<close>

definition to_int32 :: "int \<Rightarrow> int" where
  "to_int32 x = (x + 2147483648) mod 4294967296 - 2147483648"

definition to_size_t :: "int \<Rightarrow> int" where
  "to_size_t x = x mod 18446744073709551616"

text \<open>
  A failed \<^verbatim>\<open>assert\<close> aborts the program; it is compiled out when \<^verbatim>\<open>NDEBUG\<close> is defined,
  which the functions below take as the flag \<open>ndebug\<close>.  Dereferencing \<^verbatim>\<open>NULL\<close> or a freed
  pointer and accesses outside a buffer are undefined behaviour.
\<close>

datatype error = AssertionFailed | UndefinedBehaviour

text \<open>
  The heap maps the address of a live matrix struct to the struct and its buffer.  A
  \<^verbatim>\<open>scrappie_matrix\<close> pointer is an address, \<open>None\<close> for \<^verbatim>\<open>NULL\<close>.  The allocator is a
  parameter: \<open>malloc_result\<close> is what \<^verbatim>\<open>malloc(sizeof(*mat))\<close> returns and
  \<open>aligned_alloc_ok\<close> tells whether \<^verbatim>\<open>aligned_alloc\<close> succeeds.
\<close>

type_synonym addr = nat

type_synonym heap = "addr \<Rightarrow> scrappie_matrix option"

record allocator =
  malloc_result :: "addr option"
  aligned_alloc_ok :: bool

definition deref :: "heap \<Rightarrow> addr option \<Rightarrow> error + scrappie_matrix" where
  "deref h p =
     (case p of
        None \<Rightarrow> Inl UndefinedBehaviour
      | Some a \<Rightarrow> (case h a of None \<Rightarrow> Inl UndefinedBehaviour | Some m \<Rightarrow> Inr m))"

text \<open>
  \<^verbatim>\<open>memcpy\<close> of \<open>n\<close> floats from \<open>src + soff\<close> to \<open>dst + doff\<close>.  The count reaches
  \<^verbatim>\<open>memcpy\<close> as a \<^verbatim>\<open>size_t\<close>, so a negative \<open>n\<close> is a huge count and leaves every buffer.
\<close>

definition memcpy_f ::
  "cfloat list \<Rightarrow> nat \<Rightarrow> cfloat list \<Rightarrow> nat \<Rightarrow> int \<Rightarrow> error + cfloat list" where
  "memcpy_f dst doff src soff n =
     (if 0 \<le> n \<and> soff + nat n \<le> length src \<and> doff + nat n \<le> length dst
      then Inr (take doff dst @ take (nat n) (drop soff src) @ drop (doff + nat n) dst)
      else Inl UndefinedBehaviour)"

section \<open>Lifecycle\<close>

text \<open>
  \<^verbatim>\<open>make_scrappie_matrix\<close>.  The overflow check is done on \<^verbatim>\<open>size_t\<close> values
  (\<^verbatim>\<open>tmp1 = nrq * sizeof(__m128)\<close>, \<^verbatim>\<open>tmp2 = tmp1 * nc\<close>), but the size passed to
  \<^verbatim>\<open>aligned_alloc\<close> and \<^verbatim>\<open>memset\<close> is \<^verbatim>\<open>nrq * nc * sizeof(__m128)\<close>, whose first product
  is a product of two \<^verbatim>\<open>int\<close>s.  The new buffer holds \<open>nbytes / 4\<close> scalars, all with the
  zero bit pattern.
\<close>

definition make_scrappie_matrix ::
  "bool \<Rightarrow> allocator \<Rightarrow> heap \<Rightarrow> int \<Rightarrow> int \<Rightarrow> error + (heap \<times> addr option)" where
  "make_scrappie_matrix ndebug al h nr' nc' =
     (if \<not> ndebug \<and> \<not> 0 < nr' then Inl AssertionFailed
      else if \<not> ndebug \<and> \<not> 0 < nc' then Inl AssertionFailed
      else
        let nrq' = nrq_of nr' in
        case malloc_result al of
          None \<Rightarrow> Inr (h, None)
        | Some a \<Rightarrow>
            let tmp1 = to_size_t (to_size_t nrq' * 16);
                tmp2 = to_size_t (tmp1 * to_size_t nc')
            in if tmp1 \<noteq> 0 \<and> tmp2 div tmp1 \<noteq> to_size_t nc' then Inr (h, None)
               else
                 let nbytes = to_size_t (to_size_t (to_int32 (nrq' * nc')) * 16)
                 in if \<not> aligned_alloc_ok al then Inr (h, None)
                    else Inr (h(a \<mapsto> \<lparr>nr = nr', nrq = nrq', nc = nc',
                                         data = replicate (nat (nbytes div 4)) (Fin 0)\<rparr>),
                              Some a))"

definition free_scrappie_matrix ::
  "heap \<Rightarrow> addr option \<Rightarrow> error + (heap \<times> addr option)" where
  "free_scrappie_matrix h mat =
     (case mat of
        None \<Rightarrow> Inr (h, None)
      | Some a \<Rightarrow>
          (case h a of
             None \<Rightarrow> Inl UndefinedBehaviour
           | Some _ \<Rightarrow> Inr (h(a := None), None)))"

definition remake_scrappie_matrix ::
  "bool \<Rightarrow> allocator \<Rightarrow> heap \<Rightarrow> addr option \<Rightarrow> int \<Rightarrow> int \<Rightarrow> error + (heap \<times> addr option)" where
  "remake_scrappie_matrix ndebug al h M nr' nc' =
     (case M of
        None \<Rightarrow>
          (case free_scrappie_matrix h M of
             Inl e \<Rightarrow> Inl e
           | Inr (h', _) \<Rightarrow> make_scrappie_matrix ndebug al h' nr' nc')
      | Some a \<Rightarrow>
          (case h a of
             None \<Rightarrow> Inl UndefinedBehaviour
           | Some m \<Rightarrow>
               if nr m \<noteq> nr' \<or> nc m \<noteq> nc'
               then (case free_scrappie_matrix h M of
                       Inl e \<Rightarrow> Inl e
                     | Inr (h', _) \<Rightarrow> make_scrappie_matrix ndebug al h' nr' nc')
               else Inr (h, M)))"

section \<open>Conversion\<close>

text \<open>The loop of \<^verbatim>\<open>mat_from_array\<close>: one \<^verbatim>\<open>memcpy\<close> of \<open>nr\<close> floats per column.\<close>

fun copy_columns ::
  "cfloat list \<Rightarrow> cfloat list \<Rightarrow> int \<Rightarrow> int \<Rightarrow> nat list \<Rightarrow> error + cfloat list" where
  "copy_columns d x nrq' nr' [] = Inr d"
| "copy_columns d x nrq' nr' (col # cols) =
     (case memcpy_f d (col * nat nrq' * 4) x (col * nat nr') nr' of
        Inl e \<Rightarrow> Inl e
      | Inr d' \<Rightarrow> copy_columns d' x nrq' nr' cols)"

definition mat_from_array ::
  "bool \<Rightarrow> allocator \<Rightarrow> heap \<Rightarrow> cfloat list \<Rightarrow> int \<Rightarrow> int \<Rightarrow> error + (heap \<times> addr option)" where
  "mat_from_array ndebug al h x nr' nc' =
     (case make_scrappie_matrix ndebug al h nr' nc' of
        Inl e \<Rightarrow> Inl e
      | Inr (h', None) \<Rightarrow> Inr (h', None)
      | Inr (h', Some a) \<Rightarrow>
          (case deref h' (Some a) of
             Inl e \<Rightarrow> Inl e
           | Inr res \<Rightarrow>
               (case copy_columns (data res) x (nrq res) nr' [0..<nat nc'] of
                  Inl e \<Rightarrow> Inl e
                | Inr d \<Rightarrow> Inr (h'(a \<mapsto> res\<lparr>data := d\<rparr>), Some a))))"

text \<open>
  \<^verbatim>\<open>array_from_scrappie_matrix\<close>; \<open>calloc_ok\<close> tells whether \<^verbatim>\<open>calloc\<close> succeeds.  The
  element count is an \<^verbatim>\<open>int\<close> product converted to \<^verbatim>\<open>size_t\<close>.  For a well-formed matrix
  the loop bounds, compared as \<^verbatim>\<open>size_t\<close>, are the dimensions and every index of the loops
  is inside its buffer.
\<close>

definition array_from_scrappie_matrix ::
  "bool \<Rightarrow> scrappie_matrix option \<Rightarrow> cfloat list option" where
  "array_from_scrappie_matrix calloc_ok mat =
     (case mat of
        None \<Rightarrow> None
      | Some m \<Rightarrow>
          let nelt = to_size_t (to_int32 (nr m * nc m)) in
          if \<not> calloc_ok then None
          else Some (fold (\<lambda>c res.
                       let offset_out = c * nat (nr m);
                           offset_in = c * nat (nrq m) * 4
                       in fold (\<lambda>r res. res[offset_out + r := data m ! (offset_in + r)])
                            [0..<nat (nr m)] res)
                     [0..<nat (nc m)] (replicate (nat nelt) (Fin 0))))"

section \<open>Equality\<close>




section \<open>Contract validator\<close>

text \<open>
  Each check of \<^verbatim>\<open>validate_scrappie_matrix\<close> is a pair of loops that returns false at the
  first offending element: \<open>list_ex\<close> over the columns and over the rows.  \<^verbatim>\<open>!=\<close> on
  floats is the negation of \<^verbatim>\<open>==\<close>.  With \<^verbatim>\<open>NDEBUG\<close> the function returns true at once.
  The first assertion, that \<^verbatim>\<open>mat->data.f\<close> is not \<^verbatim>\<open>NULL\<close>, holds for every matrix of the
  model, where the buffer is part of the struct.
\<close>

definition validate_scrappie_matrix ::
  "bool \<Rightarrow> scrappie_matrix option \<Rightarrow> cfloat \<Rightarrow> cfloat \<Rightarrow> cfloat \<Rightarrow> bool \<Rightarrow> error + bool" where
  "validate_scrappie_matrix ndebug mat lower upper maskval only_finite =
     (if ndebug then Inr True
      else case mat of
        None \<Rightarrow> Inr False
      | Some m \<Rightarrow>
          if \<not> 0 < nc m then Inl AssertionFailed
          else if \<not> 0 < nr m then Inl AssertionFailed
          else if \<not> (0 < nrq m \<and> nr m \<le> 4 * nrq m) then Inl AssertionFailed
          else
            let ncols = nat (nc m); nrows = nat (nr m); ld = nat (nrq m * 4); d = data m in
            if \<not> isnan maskval \<and>
               list_ex (\<lambda>c. list_ex (\<lambda>r. \<not> flt_eq maskval (d ! (c * ld + r))) [nrows..<ld])
                 [0..<ncols]
            then Inr False
            else if only_finite \<and>
               list_ex (\<lambda>c. list_ex (\<lambda>r. \<not> isfinite (d ! (c * ld + r))) [0..<nrows]) [0..<ncols]
            then Inr False
            else if \<not> isnan lower \<and>
               list_ex (\<lambda>c. list_ex (\<lambda>r. flt_lt (fadd (d ! (c * ld + r)) FLT_EPSILON) lower)
                 [0..<nrows]) [0..<ncols]
            then Inr False
            else if \<not> isnan upper \<and>
               list_ex (\<lambda>c. list_ex (\<lambda>r. flt_lt (fadd upper FLT_EPSILON) (d ! (c * ld + r)))
                 [0..<nrows]) [0..<ncols]
            then Inr False
            else Inr True)"

text \<open>
  The loops of \<^verbatim>\<open>validate_vector\<close> and \<^verbatim>\<open>validate_ivector\<close>,
  \<^verbatim>\<open>for (int i = 0; i < n; ++i) if (<bad vec[i]>) return false;\<close>
  with the loop condition \<open>cont\<close> and the test \<open>bad\<close> as parameters.  The vector is the
  buffer behind the pointer; reading past its end is undefined behaviour, and so is the
  increment of the counter at \<^verbatim>\<open>INT_MAX\<close>.
\<close>

function bound_scan ::
  "(nat \<Rightarrow> bool) \<Rightarrow> ('a \<Rightarrow> bool) \<Rightarrow> 'a list \<Rightarrow> nat \<Rightarrow> error + bool" where
  "bound_scan cont bad vec i =
     (if cont i
      then (if i < length vec
            then (if bad (vec ! i) then Inr False
                  else if i = 2147483647 then Inl UndefinedBehaviour
                  else bound_scan cont bad vec (Suc i))
            else Inl UndefinedBehaviour)
      else Inr True)"
  by pat_completeness auto
termination
  by (relation "measure (\<lambda>(cont, bad, vec, i). length vec - i)") auto

declare bound_scan.simps [simp del]

text \<open>
  In \<^verbatim>\<open>validate_vector\<close> the length \<open>n\<close> is declared \<^verbatim>\<open>const float\<close>, so that \<^verbatim>\<open>i < n\<close>
  converts the counter to \<^verbatim>\<open>float\<close>, which rounds it from \<open>2 ^ 24\<close> on, and compares the
  result with \<open>n\<close>.
\<close>

definition validate_vector ::
  "bool \<Rightarrow> cfloat list option \<Rightarrow> cfloat \<Rightarrow> cfloat \<Rightarrow> cfloat \<Rightarrow> error + bool" where
  "validate_vector ndebug vec n lower upper =
     (if ndebug then Inr True
      else case vec of
        None \<Rightarrow> Inr False
      | Some v \<Rightarrow>
          (case (if \<not> isnan lower
                 then bound_scan (\<lambda>i. flt_lt (float_of_int (int i)) n) (\<lambda>x. flt_lt x lower) v 0
                 else Inr True) of
             Inl e \<Rightarrow> Inl e
           | Inr False \<Rightarrow> Inr False
           | Inr True \<Rightarrow>
               (case (if \<not> isnan upper
                      then bound_scan (\<lambda>i. flt_lt (float_of_int (int i)) n) (\<lambda>x. flt_lt upper x) v 0
                      else Inr True) of
                  Inl e \<Rightarrow> Inl e
                | Inr False \<Rightarrow> Inr False
                | Inr True \<Rightarrow> Inr True)))"

definition validate_ivector ::
  "bool \<Rightarrow> int list option \<Rightarrow> int \<Rightarrow> int \<Rightarrow> int \<Rightarrow> error + bool" where
  "validate_ivector ndebug vec n lower upper =
     (if ndebug then Inr True
      else case vec of
        None \<Rightarrow> Inr False
      | Some v \<Rightarrow>
          (case bound_scan (\<lambda>i. int i < n) (\<lambda>x. lower > x) v 0 of
             Inl e \<Rightarrow> Inl e
           | Inr False \<Rightarrow> Inr False
           | Inr True \<Rightarrow>
               (case bound_scan (\<lambda>i. int i < n) (\<lambda>x. upper < x) v 0 of
                  Inl e \<Rightarrow> Inl e
                | Inr False \<Rightarrow> Inr False
                | Inr True \<Rightarrow> Inr True)))"

section \<open>Linear-algebra kernel\<close>

text \<open>
  \<^verbatim>\<open>cblas_sgemm\<close> belongs to the external BLAS library and is a parameter: called as in
  the source (column major, the first factor transposed, \<open>alpha = beta = 1\<close>) with
  \<open>M N K A lda B ldb C ldc\<close>, it returns the new contents of the buffer \<open>C\<close>.
\<close>

type_synonym sgemm =
  "int \<Rightarrow> int \<Rightarrow> int \<Rightarrow> cfloat list \<Rightarrow> int \<Rightarrow> cfloat list \<Rightarrow> int \<Rightarrow> cfloat list \<Rightarrow> int \<Rightarrow> cfloat list"

text \<open>The bias loop: \<^verbatim>\<open>memcpy(C->data.v + c * C->nrq, b->data.v, C->nrq * sizeof(__m128))\<close>.\<close>

fun copy_bias :: "cfloat list \<Rightarrow> cfloat list \<Rightarrow> int \<Rightarrow> nat list \<Rightarrow> error + cfloat list" where
  "copy_bias d bd nrqC [] = Inr d"
| "copy_bias d bd nrqC (c # cs) =
     (case memcpy_f d (c * nat nrqC * 4) bd 0 (nrqC * 4) of
        Inl e \<Rightarrow> Inl e
      | Inr d' \<Rightarrow> copy_bias d' bd nrqC cs)"

definition broadcast_bias :: "heap \<Rightarrow> addr option \<Rightarrow> addr \<Rightarrow> error + heap" where
  "broadcast_bias h b ca =
     (case deref h (Some ca) of
        Inl e \<Rightarrow> Inl e
      | Inr Cm \<Rightarrow>
          if 0 < nc Cm
          then (case deref h b of
                  Inl e \<Rightarrow> Inl e
                | Inr bm \<Rightarrow>
                    (case copy_bias (data Cm) (data bm) (nrq Cm) [0..<nat (nc Cm)] of
                       Inl e \<Rightarrow> Inl e
                     | Inr d \<Rightarrow> Inr (h(ca \<mapsto> Cm\<lparr>data := d\<rparr>))))
          else Inr h)"

text \<open>One accumulating call \<^verbatim>\<open>cblas_sgemm(..., W->nc, X->nc, W->nr, 1.0, W->data.f,
  W->nrq * 4, X->data.f, X->nrq * 4, 1.0, C->data.f, C->nrq * 4)\<close>.\<close>

definition gemm_acc ::
  "sgemm \<Rightarrow> heap \<Rightarrow> addr option \<Rightarrow> addr option \<Rightarrow> addr \<Rightarrow> error + heap" where
  "gemm_acc gemm h W X ca =
     (case deref h W of
        Inl e \<Rightarrow> Inl e
      | Inr Wm \<Rightarrow>
          (case deref h X of
             Inl e \<Rightarrow> Inl e
           | Inr Xm \<Rightarrow>
               (case deref h (Some ca) of
                  Inl e \<Rightarrow> Inl e
                | Inr Cm \<Rightarrow>
                    Inr (h(ca \<mapsto> Cm\<lparr>data :=
                      gemm (nc Wm) (nc Xm) (nr Wm) (data Wm) (nrq Wm * 4)
                        (data Xm) (nrq Xm * 4) (data Cm) (nrq Cm * 4)\<rparr>)))))"

definition affine_map ::
  "bool \<Rightarrow> allocator \<Rightarrow> sgemm \<Rightarrow> heap \<Rightarrow> addr option \<Rightarrow> addr option \<Rightarrow> addr option \<Rightarrow>
   addr option \<Rightarrow> error + (heap \<times> addr option)" where
  "affine_map ndebug al gemm h X W b C =
     (case X of
        None \<Rightarrow> Inr (h, None)
      | Some _ \<Rightarrow>
          if \<not> ndebug \<and> W = None then Inl AssertionFailed
          else if \<not> ndebug \<and> b = None then Inl AssertionFailed
          else
            (case deref h W of
               Inl e \<Rightarrow> Inl e
             | Inr Wm \<Rightarrow>
                 (case deref h X of
                    Inl e \<Rightarrow> Inl e
                  | Inr Xm \<Rightarrow>
                      if \<not> ndebug \<and> nr Wm \<noteq> nr Xm then Inl AssertionFailed
                      else
                        (case remake_scrappie_matrix ndebug al h C (nc Wm) (nc Xm) of
                           Inl e \<Rightarrow> Inl e
                         | Inr (h1, None) \<Rightarrow> Inr (h1, None)
                         | Inr (h1, Some ca) \<Rightarrow>
                             (case broadcast_bias h1 b ca of
                                Inl e \<Rightarrow> Inl e
                              | Inr h2 \<Rightarrow>
                                  (case gemm_acc gemm h2 W X ca of
                                     Inl e \<Rightarrow> Inl e
                                   | Inr h3 \<Rightarrow> Inr (h3, Some ca)))))))"

text \<open>
  \<^verbatim>\<open>affine_map2\<close>.  In a debug build the assertions read all four of \<open>Wf\<close>, \<open>Xf\<close>, \<open>Wb\<close>,
  \<open>Xb\<close> before the output is remade; with \<^verbatim>\<open>NDEBUG\<close> only \<open>Wf\<close> and \<open>Xf\<close> are read there.
\<close>

definition affine_map2 ::
  "bool \<Rightarrow> allocator \<Rightarrow> sgemm \<Rightarrow> heap \<Rightarrow> addr option \<Rightarrow> addr option \<Rightarrow> addr option \<Rightarrow>
   addr option \<Rightarrow> addr option \<Rightarrow> addr option \<Rightarrow> error + (heap \<times> addr option)" where
  "affine_map2 ndebug al gemm h Xf Xb Wf Wb b C =
     (case Xf of
        None \<Rightarrow> Inr (h, None)
      | Some _ \<Rightarrow>
     (case Xb of
        None \<Rightarrow> Inr (h, None)
      | Some _ \<Rightarrow>
          if \<not> ndebug \<and> Wf = None then Inl AssertionFailed
          else if \<not> ndebug \<and> Wb = None then Inl AssertionFailed
          else if \<not> ndebug \<and> b = None then Inl AssertionFailed
          else
            (case deref h Wf of
               Inl e \<Rightarrow> Inl e
             | Inr Wfm \<Rightarrow>
            (case deref h Xf of
               Inl e \<Rightarrow> Inl e
             | Inr Xfm \<Rightarrow>
            (case (if ndebug then Inr ()
                   else if nr Wfm \<noteq> nr Xfm then Inl AssertionFailed
                   else (case deref h Wb of
                           Inl e \<Rightarrow> Inl e
                         | Inr Wbm \<Rightarrow>
                             (case deref h Xb of
                                Inl e \<Rightarrow> Inl e
                              | Inr Xbm \<Rightarrow>
                                  if nr Wbm \<noteq> nr Xbm then Inl AssertionFailed
                                  else if nc Xfm \<noteq> nc Xbm then Inl AssertionFailed
                                  else if nc Wfm \<noteq> nc Wbm then Inl AssertionFailed
                                  else Inr ()))) of
               Inl e \<Rightarrow> Inl e
             | Inr _ \<Rightarrow>
                 (case remake_scrappie_matrix ndebug al h C (nc Wfm) (nc Xfm) of
                    Inl e \<Rightarrow> Inl e
                  | Inr (h1, None) \<Rightarrow> Inr (h1, None)
                  | Inr (h1, Some ca) \<Rightarrow>
                      (case broadcast_bias h1 b ca of
                         Inl e \<Rightarrow> Inl e
                       | Inr h2 \<Rightarrow>
                           (case gemm_acc gemm h2 Wf Xf ca of
                              Inl e \<Rightarrow> Inl e
                            | Inr h3 \<Rightarrow>
                                (case gemm_acc gemm h3 Wb Xb ca of
                                   Inl e \<Rightarrow> Inl e
                                 | Inr h4 \<Rightarrow> Inr (h4, Some ca))))))))))"

text \<open>Inputs for the evaluation of the kernel: an allocator that succeeds at address 1,
  a multiply that leaves \<open>C\<close> as it is, and a heap holding the example matrix at address 0.\<close>

definition alloc_at_1 :: allocator where
  "alloc_at_1 = \<lparr>malloc_result = Some 1, aligned_alloc_ok = True\<rparr>"

definition sgemm_keep :: sgemm where
  "sgemm_keep M N K A lda B ldb C ldc = C"

definition heap_ex :: heap where
  "heap_ex = Map.empty(0 \<mapsto> ex_cols)"

section \<open>Normalisation\<close>




















section \<open>Sequence encoding\<close>

text \<open>\<^verbatim>\<open>toupper\<close> in the C locale: the letters \<open>a .. z\<close> go to \<open>A .. Z\<close>, every other
  byte is returned as it is.\<close>

definition toupper :: "char \<Rightarrow> char" where
  "toupper c =
     (let k = (of_char c :: nat) in if 97 \<le> k \<and> k \<le> 122 then char_of (k - 32) else c)"

definition base_to_int :: "char \<Rightarrow> bool \<Rightarrow> int" where
  "base_to_int c allow_lower =
     (let c' = (if allow_lower then toupper c else c) in
      if c' = CHR ''A'' then 0
      else if c' = CHR ''C'' then 1
      else if c' = CHR ''G'' then 2
      else if c' = CHR ''T'' then 3
      else - 1)"

text \<open>
  The loop of \<^verbatim>\<open>encode_bases_to_integers\<close> on the \<^verbatim>\<open>calloc\<close>ed buffer \<open>iseq\<close>: at the first
  character that \<^verbatim>\<open>base_to_int\<close> rejects the buffer is freed and \<^verbatim>\<open>NULL\<close> is returned.
\<close>

function encode_loop :: "string \<Rightarrow> nat \<Rightarrow> nat \<Rightarrow> int list \<Rightarrow> error + int list option" where
  "encode_loop seq n i iseq =
     (if i < n
      then (if i < length seq
            then (let ib = base_to_int (seq ! i) True; iseq' = iseq[i := ib]
                  in if - 1 = ib then Inr None else encode_loop seq n (Suc i) iseq')
            else Inl UndefinedBehaviour)
      else Inr (Some iseq))"
  by pat_completeness auto
termination
  by (relation "measure (\<lambda>(seq, n, i, iseq). n - i)") auto

declare encode_loop.simps [simp del]

text \<open>
  The result of \<^verbatim>\<open>calloc\<close> is not checked in the source: when it fails, the first store
  goes through \<^verbatim>\<open>NULL\<close>; with \<open>n = 0\<close> the loop does not run and \<^verbatim>\<open>NULL\<close> is returned.
\<close>

definition encode_bases_to_integers :: "bool \<Rightarrow> string \<Rightarrow> nat \<Rightarrow> error + int list option" where
  "encode_bases_to_integers calloc_ok seq n =
     (if calloc_ok then encode_loop seq n 0 (replicate n 0)
      else if 0 < n then Inl UndefinedBehaviour
      else Inr None)"

text \<open>\<^verbatim>\<open>dna_squiggle\<close> is the network forward pass, declared in \<^verbatim>\<open>networks.h\<close>; it is a
  parameter.\<close>

definition sequence_to_squiggle ::
  "bool \<Rightarrow> (int list \<Rightarrow> nat \<Rightarrow> bool \<Rightarrow> scrappie_matrix option) \<Rightarrow> string option \<Rightarrow> nat \<Rightarrow> bool \<Rightarrow>
   error + scrappie_matrix option" where
  "sequence_to_squiggle calloc_ok dna_squiggle base_seq n rescale =
     (case base_seq of
        None \<Rightarrow> Inr None
      | Some seq \<Rightarrow>
          (case encode_bases_to_integers calloc_ok seq n of
             Inl e \<Rightarrow> Inl e
           | Inr None \<Rightarrow> Inr None
           | Inr (Some sequence) \<Rightarrow> Inr (dna_squiggle sequence n rescale)))"

text \<open>Inputs for the evaluation of the validators, of the comparison, of the
  normalisation and of the sequence driver: a one-element zero matrix, the matrix with
  one given element, a vector of \<open>16777220\<close> elements that are zero but for the last, a
  column \<open>1, 1, 2\<close> whose padding lane holds \<open>+\<infinity>\<close> or zero, a column of two elements
  \<open>2 ^ 127\<close>, and a forward pass that returns the example matrix.\<close>

definition zero_1x1 :: scrappie_matrix where
  "zero_1x1 = \<lparr>nr = 1, nrq = 1, nc = 1, data = [Fin 0, Fin 0, Fin 0, Fin 0]\<rparr>"

definition one_1x1 :: "cfloat \<Rightarrow> scrappie_matrix" where
  "one_1x1 v = \<lparr>nr = 1, nrq = 1, nc = 1, data = [v, Fin 0, Fin 0, Fin 0]\<rparr>"

definition long_vec :: "cfloat list" where
  "long_vec = replicate 16777219 (Fin 0) @ [Fin 5]"




definition dna_const :: "int list \<Rightarrow> nat \<Rightarrow> bool \<Rightarrow> scrappie_matrix option" where
  "dna_const sequence n rescale = Some ex_cols"

text \<open>The logical offsets in the order of the scan: column by column, rows ascending.\<close>

definition offsets :: "scrappie_matrix \<Rightarrow> nat list" where
  "offsets m = concat (map (\<lambda>col. map (\<lambda>r. col * (nat (nrq m) * 4) + r) [0..<nat (nr m)]) [0..<nat (nc m)])"


section \<open>Properties of the scalars and of the integer conversions\<close>

lemma flt_lt_irrefl: "\<not> flt_lt a a"
  by (cases a) auto

lemma flt_lt_trans: "flt_lt a b \<Longrightarrow> flt_lt b c \<Longrightarrow> flt_lt a c"
  by (cases a; cases b; cases c) auto

lemma flt_lt_le_trans: "flt_lt a b \<Longrightarrow> flt_le b c \<Longrightarrow> flt_lt a c"
  by (auto simp: flt_le_def flt_eq_def intro: flt_lt_trans)

lemma flt_total: "\<not> isnan a \<Longrightarrow> \<not> isnan b \<Longrightarrow> flt_lt a b \<or> a = b \<or> flt_lt b a"
  by (cases a; cases b) auto

lemma not_flt_lt_iff: "\<not> isnan a \<Longrightarrow> \<not> isnan b \<Longrightarrow> (\<not> flt_lt a b) = flt_le b a"
  by (cases a; cases b) (auto simp: flt_le_def flt_eq_def)

lemma not_flt_le_iff: "\<not> isnan a \<Longrightarrow> \<not> isnan b \<Longrightarrow> (\<not> flt_le a b) = flt_lt b a"
  by (cases a; cases b) (auto simp: flt_le_def flt_eq_def)

lemma nrq_of_eq: "nrq_of n = (n + 3) div 4"
proof -
  have "\<lceil>real_of_int n / real_of_int 4\<rceil> = - (- n div 4)"
    by (rule ceiling_divide_eq_div)
  then show ?thesis by (simp add: nrq_of_def)
qed

lemma wf_matrix_iff:
  "wf_matrix m =
     (0 < nr m \<and> 0 < nc m \<and> nrq m = (nr m + 3) div 4 \<and>
      int (length (data m)) = 4 * nrq m * nc m \<and> 4 * nrq m * nc m \<le> 2147483647)"
  by (simp add: wf_matrix_def nrq_of_eq)

lemma wf_matrix_pad: "wf_matrix m \<Longrightarrow> nat (nr m) \<le> nat (nrq m) * 4"
  by (auto simp: wf_matrix_def nrq_of_eq)

lemma to_int32_id: "- 2147483648 \<le> x \<Longrightarrow> x \<le> 2147483647 \<Longrightarrow> to_int32 x = x"
  by (simp add: to_int32_def)

lemma to_size_t_id: "0 \<le> x \<Longrightarrow> x < 18446744073709551616 \<Longrightarrow> to_size_t x = x"
  by (simp add: to_size_t_def)


section \<open>Rounding to binary32\<close>

lemma rne_of_int: "rne (of_int k) = k"
  by (simp add: rne_def)


lemma pow2_less_imp: "(2::real) powi a < 2 powi b \<Longrightarrow> a < b"
proof (rule ccontr)
  assume l: "(2::real) powi a < 2 powi b" and n: "\<not> a < b"
  from n have "b \<le> a" by simp
  then have "(2::real) powi b \<le> 2 powi a" by (intro power_int_increasing) simp_all
  with l show False by simp
qed


lemma binade_upper: "binade k e ax < e + int k \<Longrightarrow> ax < 2 powi (binade k e ax + 1)"
proof (induction k arbitrary: e)
  case 0
  then show ?case by simp
next
  case (Suc k)
  show ?case
  proof (cases "ax < 2 powi (e + 1)")
    case True
    then show ?thesis by simp
  next
    case False
    then have b: "binade (Suc k) e ax = binade k (e + 1) ax" by simp
    have "binade k (e + 1) ax < (e + 1) + int k" using Suc.prems b by simp
    from Suc.IH [OF this] show ?thesis using b by simp
  qed
qed

lemma binade_lower: "2 powi e \<le> ax \<Longrightarrow> 2 powi (binade k e ax) \<le> ax"
proof (induction k arbitrary: e)
  case 0
  then show ?case by simp
next
  case (Suc k)
  show ?case
  proof (cases "ax < 2 powi (e + 1)")
    case True
    then show ?thesis using Suc.prems by simp
  next
    case False
    then have "2 powi (e + 1) \<le> ax" by simp
    from Suc.IH [OF this] show ?thesis using False by simp
  qed
qed

lemma binade_first: "ax < 2 powi (e + 1) \<Longrightarrow> 0 < k \<Longrightarrow> binade k e ax = e"
  by (cases k) simp_all

lemma binade_eq:
  "e0 \<le> e \<Longrightarrow> e < e0 + int k \<Longrightarrow> 2 powi e \<le> ax \<Longrightarrow> ax < 2 powi (e + 1) \<Longrightarrow>
   binade k e0 ax = e"
proof (induction k arbitrary: e0)
  case 0
  then show ?case by simp
next
  case (Suc k)
  show ?case
  proof (cases "ax < 2 powi (e0 + 1)")
    case True
    have "(2::real) powi e < 2 powi (e0 + 1)" using Suc.prems(3) True by linarith
    then have "e < e0 + 1" by (rule pow2_less_imp)
    then have "e = e0" using Suc.prems(1) by simp
    then show ?thesis using True by simp
  next
    case False
    have "e \<noteq> e0" using False Suc.prems(4) by auto
    then have a: "e0 + 1 \<le> e" using Suc.prems(1) by simp
    have b: "e < (e0 + 1) + int k" using Suc.prems(2) by simp
    from Suc.IH [OF a b Suc.prems(3) Suc.prems(4)] show ?thesis using False by simp
  qed
qed



lemma round32_unfold:
  "round32 x =
     (if 2 ^ 128 \<le> \<bar>real_of_int (rne (x / 2 powi (binade 254 (- 126) \<bar>x\<bar> - 23))) *
                        2 powi (binade 254 (- 126) \<bar>x\<bar> - 23)\<bar>
      then inf_of_sign x
      else Fin (of_int (rne (x / 2 powi (binade 254 (- 126) \<bar>x\<bar> - 23))) *
                2 powi (binade 254 (- 126) \<bar>x\<bar> - 23)))"
  by (simp add: round32_def Let_def)

lemma round32_in_binade:
  assumes "- 126 \<le> e" and "e \<le> 127" and "2 powi e \<le> \<bar>x\<bar>" and "\<bar>x\<bar> < 2 powi (e + 1)"
  shows "round32 x =
     (if 2 ^ 128 \<le> \<bar>real_of_int (rne (x / 2 powi (e - 23))) * 2 powi (e - 23)\<bar>
      then inf_of_sign x
      else Fin (of_int (rne (x / 2 powi (e - 23))) * 2 powi (e - 23)))"
proof -
  have "binade 254 (- 126) \<bar>x\<bar> = e"
    using assms by (intro binade_eq) simp_all
  then show ?thesis unfolding round32_unfold by simp
qed





lemma binade_cases:
  "binade 254 (- 126) ax = - 126 \<and> ax < 2 powi (- 125) \<or>
   2 powi (binade 254 (- 126) ax) \<le> ax"
proof (cases "ax < 2 powi (- 125)")
  case True
  then have "binade 254 (- 126) ax = - 126" by (intro binade_first) simp_all
  then show ?thesis using True by simp
next
  case False
  then have "2 powi (- 126) \<le> ax"
  proof -
    have "(2::real) powi (- 126) \<le> 2 powi (- 125)" by (intro power_int_increasing) simp_all
    then show ?thesis using False by linarith
  qed
  then show ?thesis using binade_lower by blast
qed

lemma round32_exact:
  assumes m: "\<bar>m\<bar> < 2 ^ 24" and lo: "- 149 \<le> e" and hi: "e \<le> 104"
  shows "round32 (of_int m * 2 powi e) = Fin (of_int m * 2 powi e)"
proof -
  define x :: real where "x = of_int m * 2 powi e"
  define E where "E = binade 254 (- 126) \<bar>x\<bar>"
  have ax: "\<bar>x\<bar> = of_int \<bar>m\<bar> * 2 powi e" by (simp add: x_def abs_mult)
  have lt: "\<bar>x\<bar> < 2 powi (24 + e)"
  proof -
    have "real_of_int \<bar>m\<bar> < 2 ^ 24" using m by (metis of_int_less_numeral_power_cancel_iff)
    then have "of_int \<bar>m\<bar> * 2 powi e < (2 ^ 24 :: real) * 2 powi e"
      by (intro mult_strict_right_mono) simp_all
    also have "\<dots> = 2 powi (24 + e)" by (simp add: power_int_add)
    finally show ?thesis unfolding ax .
  qed
  have Ee: "E - 23 \<le> e"
  proof -
    from binade_cases [of "\<bar>x\<bar>"] show ?thesis
    proof
      assume "binade 254 (- 126) \<bar>x\<bar> = - 126 \<and> \<bar>x\<bar> < 2 powi (- 125)"
      then show ?thesis using lo by (simp add: E_def)
    next
      assume "2 powi (binade 254 (- 126) \<bar>x\<bar>) \<le> \<bar>x\<bar>"
      then have "(2::real) powi E < 2 powi (24 + e)" using lt by (simp add: E_def)
      then have "E < 24 + e" by (rule pow2_less_imp)
      then show ?thesis by simp
    qed
  qed
  define k where "k = nat (e - (E - 23))"
  have ek: "e = (E - 23) + int k" using Ee by (simp add: k_def)
  have quot: "x / 2 powi (E - 23) = of_int (m * 2 ^ k)"
  proof -
    have "(2::real) powi e = 2 powi (E - 23) * 2 powi (int k)"
      by (subst ek) (simp add: power_int_add)
    then show ?thesis by (simp add: x_def)
  qed
  have y: "of_int (rne (x / 2 powi (E - 23))) * 2 powi (E - 23) = x"
  proof -
    have "of_int (rne (x / 2 powi (E - 23))) * 2 powi (E - 23) = (x / 2 powi (E - 23)) * 2 powi (E - 23)"
      unfolding quot rne_of_int ..
    then show ?thesis by simp
  qed
  have "\<bar>x\<bar> < 2 ^ 128"
  proof -
    have "(2::real) powi (24 + e) \<le> 2 powi 128" using hi by (intro power_int_increasing) simp_all
    then show ?thesis using lt by simp
  qed
  then have "\<not> 2 ^ 128 \<le> \<bar>x\<bar>" by simp
  then show ?thesis
    unfolding round32_unfold E_def [symmetric] x_def [symmetric] y by simp
qed

lemma round32_of_int:
  assumes "\<bar>i\<bar> < 2 ^ 24"
  shows "round32 (of_int i) = Fin (of_int i)"
  using round32_exact [OF assms, of 0] by simp









section \<open>The scan of the logical elements\<close>

lemma fold_nested_flat:
  "fold (\<lambda>col. fold (\<lambda>r. f (g col r)) rs) cols s =
   fold f (concat (map (\<lambda>col. map (g col) rs) cols)) s"
  by (induction cols arbitrary: s) (simp_all add: fold_map comp_def)

lemma max_step_argmax_step:
  "fold (max_step d) ks a = fst (fold (argmax_step d) ks (a, i))"
  by (induction ks arbitrary: a i) (simp_all add: max_step_def argmax_step_def)

lemma argmax_fold_inv:
  assumes "sorted_wrt (<) ks" and "\<forall>k\<in>set ks. i0 \<le> k"
  shows "fst (fold (argmax_step d) ks (d ! i0, i0)) = d ! snd (fold (argmax_step d) ks (d ! i0, i0)) \<and>
     snd (fold (argmax_step d) ks (d ! i0, i0)) \<in> insert i0 (set ks) \<and>
     (\<forall>j\<in>insert i0 (set ks). \<not> flt_lt (fst (fold (argmax_step d) ks (d ! i0, i0))) (d ! j)) \<and>
     (\<forall>j\<in>insert i0 (set ks). j < snd (fold (argmax_step d) ks (d ! i0, i0)) \<longrightarrow>
         \<not> flt_le (fst (fold (argmax_step d) ks (d ! i0, i0))) (d ! j))"
  using assms
proof (induction ks rule: rev_induct)
  case Nil
  then show ?case by (simp add: flt_lt_irrefl)
next
  case (snoc k ks)
  define st where "st = fold (argmax_step d) ks (d ! i0, i0)"
  from snoc.prems have srt: "sorted_wrt (<) ks" and lo: "\<forall>k\<in>set ks. i0 \<le> k"
    and kbig: "\<forall>j\<in>set ks. j < k" and k0: "i0 \<le> k"
    by (auto simp: sorted_wrt_append)
  from snoc.IH [OF srt lo] have
    a: "fst st = d ! snd st" and
    b: "snd st \<in> insert i0 (set ks)" and
    c: "\<forall>j\<in>insert i0 (set ks). \<not> flt_lt (fst st) (d ! j)" and
    e: "\<forall>j\<in>insert i0 (set ks). j < snd st \<longrightarrow> \<not> flt_le (fst st) (d ! j)"
    unfolding st_def by blast+
  have ile: "snd st \<le> k" using b kbig k0 by auto
  have step: "fold (argmax_step d) (ks @ [k]) (d ! i0, i0) = argmax_step d k st"
    by (simp add: st_def)
  show ?case
  proof (cases "flt_lt (fst st) (d ! k)")
    case True
    then have r: "argmax_step d k st = (d ! k, k)" by (simp add: argmax_step_def)
    have "\<forall>j\<in>insert i0 (set ks). \<not> flt_le (d ! k) (d ! j)"
      using c True flt_lt_le_trans by blast
    then show ?thesis
      unfolding step r using flt_lt_irrefl [of "d ! k"]
      by (auto simp: flt_le_def)
  next
    case False
    then have r: "argmax_step d k st = st" by (simp add: argmax_step_def)
    show ?thesis
      unfolding step r using a b c e False ile by auto
  qed
qed

lemma col_bound:
  fixes q :: nat
  assumes "n \<le> q" "y < k"
  shows "n + y * q \<le> k * q"
proof -
  have "n + y * q \<le> Suc y * q" using assms(1) by simp
  also have "\<dots> \<le> k * q" using assms(2) by (intro mult_le_mono1) simp
  finally show ?thesis .
qed

lemma set_offsets:
  "set (concat (map (\<lambda>col. map (\<lambda>r. col * q + r) [0..<n]) [0..<k])) =
     {col * q + (r::nat) | col r. col < k \<and> r < n}"
proof -
  have "set (concat (map (\<lambda>col. map (\<lambda>r. col * q + r) [0..<n]) [0..<k])) =
      (\<Union>col\<in>{0..<k}. (\<lambda>r. col * q + r) ` {0..<n})"
    by (simp only: set_concat set_map set_upt image_image)
  also have "\<dots> = {col * q + r | col r. col < k \<and> r < n}"
    by (simp only: set_eq_iff UN_iff image_iff atLeastLessThan_iff mem_Collect_eq Bex_def) blast
  finally show ?thesis .
qed

lemma sorted_offsets:
  "n \<le> q \<Longrightarrow> sorted_wrt (<) (concat (map (\<lambda>col. map (\<lambda>r. col * q + (r::nat)) [0..<n]) [0..<k]))"
proof (induction k)
  case 0
  then show ?case by simp
next
  case (Suc k)
  let ?row = "\<lambda>col. map (\<lambda>r. col * q + r) [0..<n]"
  have a: "sorted_wrt (<) (concat (map ?row [0..<k]))" using Suc by simp
  have b: "sorted_wrt (<) (?row k)"
    by (simp only: sorted_wrt_map) (simp add: sorted_wrt_iff_nth_less)
  have c: "x < y" if "x \<in> set (concat (map ?row [0..<k]))" "y \<in> set (?row k)" for x y
  proof -
    from that(1) obtain c r where x: "x = c * q + r" "c < k" "r < n"
      unfolding set_offsets by blast
    from that(2) obtain r' where y: "y = k * q + r'"
      by (auto simp only: set_map image_iff)
    have "x < n + c * q" using x by simp
    also have "\<dots> \<le> k * q" by (rule col_bound [OF Suc.prems x(2)])
    finally show ?thesis using y by simp
  qed
  have "concat (map ?row [0..<Suc k]) = concat (map ?row [0..<k]) @ ?row k"
    by simp
  then show ?case
    using a b c by (simp only: sorted_wrt_append) blast
qed

lemma scan_order_offset:
  fixes q :: nat
  assumes "n \<le> q" "r' < n" "c' < c \<or> (c' = c \<and> r' < r)"
  shows "c' * q + r' < c * q + r"
proof (cases "c' < c")
  case True
  have "c' * q + r' < c' * q + q" using assms by simp
  also have "\<dots> = Suc c' * q" by simp
  also have "\<dots> \<le> c * q" using True by (intro mult_le_mono1) simp
  finally show ?thesis by simp
next
  case False
  with assms show ?thesis by auto
qed

lemma argmax_flat:
  "argmax_scrappie_matrix (Some m) = int (snd (fold (argmax_step (data m)) (offsets m) (data m ! 0, 0)))"
proof -
  have "argmax_scrappie_matrix (Some m) =
      int (snd (fold (\<lambda>col. fold (\<lambda>r. argmax_step (data m) (col * (nat (nrq m) * 4) + r)) [0..<nat (nr m)])
        [0..<nat (nc m)] (data m ! 0, 0)))"
    by (simp add: argmax_scrappie_matrix_def Let_def mult.assoc)
  then show ?thesis
    by (simp only: offsets_def fold_nested_flat [where g = "\<lambda>col r. col * (nat (nrq m) * 4) + r"])
qed

lemma max_flat:
  "max_scrappie_matrix (Some m) = fst (fold (argmax_step (data m)) (offsets m) (data m ! 0, 0))"
proof -
  have "max_scrappie_matrix (Some m) =
      fold (\<lambda>col. fold (\<lambda>r. max_step (data m) (col * (nat (nrq m) * 4) + r)) [0..<nat (nr m)])
        [0..<nat (nc m)] (data m ! 0)"
    by (simp add: max_scrappie_matrix_def Let_def mult.assoc)
  then show ?thesis
    by (simp only: offsets_def fold_nested_flat [where g = "\<lambda>col r. col * (nat (nrq m) * 4) + r"]
        max_step_argmax_step [where i = 0])
qed

lemma argmax_general:
  assumes wf: "wf_matrix m"
  shows "\<exists>c r. c < nat (nc m) \<and> r < nat (nr m) \<and>
     argmax_scrappie_matrix (Some m) = int (elt_offset m c r) \<and>
     max_scrappie_matrix (Some m) = data m ! elt_offset m c r \<and>
     (\<forall>c' r'. c' < nat (nc m) \<and> r' < nat (nr m) \<longrightarrow>
        \<not> flt_lt (max_scrappie_matrix (Some m)) (data m ! elt_offset m c' r')) \<and>
     (\<forall>c' r'. c' < nat (nc m) \<and> r' < nat (nr m) \<and> (c' < c \<or> (c' = c \<and> r' < r)) \<longrightarrow>
        \<not> flt_le (max_scrappie_matrix (Some m)) (data m ! elt_offset m c' r'))"
proof -
  define q where "q = nat (nrq m) * 4"
  define st where "st = fold (argmax_step (data m)) (offsets m) (data m ! 0, 0)"
  have nq: "nat (nr m) \<le> q" using wf by (simp add: q_def wf_matrix_pad)
  have pos: "0 < nat (nc m)" "0 < nat (nr m)" using wf by (auto simp: wf_matrix_def)
  have srt: "sorted_wrt (<) (offsets m)"
    unfolding offsets_def q_def [symmetric] by (rule sorted_offsets [OF nq])
  have so: "set (offsets m) = {col * q + r | col r. col < nat (nc m) \<and> r < nat (nr m)}"
    unfolding offsets_def q_def [symmetric] by (rule set_offsets)
  have z: "0 \<in> set (offsets m)" unfolding so using pos by force
  from argmax_fold_inv [OF srt, of 0 "data m"] have
    a: "fst st = data m ! snd st" and
    b: "snd st \<in> set (offsets m)" and
    c: "\<forall>j\<in>set (offsets m). \<not> flt_lt (fst st) (data m ! j)" and
    e: "\<forall>j\<in>set (offsets m). j < snd st \<longrightarrow> \<not> flt_le (fst st) (data m ! j)"
    unfolding st_def [symmetric] using z by (auto simp: insert_absorb)
  from b obtain c0 r0 where cr: "c0 < nat (nc m)" "r0 < nat (nr m)" "snd st = c0 * q + r0"
    unfolding so by blast
  have off: "elt_offset m c' r' = c' * q + r'" for c' r'
    by (simp add: elt_offset_def q_def)
  have mx: "max_scrappie_matrix (Some m) = fst st" by (simp add: max_flat st_def)
  have am: "argmax_scrappie_matrix (Some m) = int (snd st)" by (simp add: argmax_flat st_def)
  have 1: "\<not> flt_lt (fst st) (data m ! (c' * q + r'))" if "c' < nat (nc m)" "r' < nat (nr m)" for c' r'
    using c that unfolding so by blast
  have 2: "\<not> flt_le (fst st) (data m ! (c' * q + r'))"
    if "c' < nat (nc m)" "r' < nat (nr m)" "c' < c0 \<or> (c' = c0 \<and> r' < r0)" for c' r'
  proof -
    have "c' * q + r' < c0 * q + r0" using scan_order_offset [OF nq that(2) that(3)] .
    moreover have "c' * q + r' \<in> set (offsets m)" unfolding so using that by blast
    ultimately show ?thesis using e cr(3) by simp
  qed
  show ?thesis
    apply (rule exI [of _ c0], rule exI [of _ r0])
    unfolding mx am off using cr a 1 2 by auto
qed

section \<open>Extrema\<close>

text \<open>
  Claim C2.  For a well-formed matrix, \<^verbatim>\<open>argmax_scrappie_matrix\<close> returns the flat offset
  \<open>col * 4 * nrq + r\<close> of a logical element and \<^verbatim>\<open>max_scrappie_matrix\<close> returns the value
  stored there; no logical element is greater than it, and no logical element met earlier
  in the scan (a smaller column, or the same column and a smaller row) is greater than or
  equal to it.  When no logical element is a NaN this reads: every logical element is at
  most the result and every earlier one is strictly below it.  An absent matrix gives
  \<open>-1\<close> and NaN.  On the example matrix the offset is that of the value 5 (offset 1 when
  \<open>[1,5]\<close> and \<open>[3,2]\<close> are the columns, offset 4 when they are the rows) and the maximum
  is 5.
\<close>

theorem argmax_max_scrappie_matrix_correct:
  "argmax_scrappie_matrix None = - 1 \<and> max_scrappie_matrix None = NaN \<and>
   argmax_scrappie_matrix (Some ex_cols) = 1 \<and> max_scrappie_matrix (Some ex_cols) = Fin 5 \<and>
   data ex_cols ! 1 = Fin 5 \<and>
   argmax_scrappie_matrix (Some ex_rows) = 4 \<and> max_scrappie_matrix (Some ex_rows) = Fin 5 \<and>
   data ex_rows ! 4 = Fin 5 \<and>
   (wf_matrix m \<longrightarrow>
    (\<exists>c r. c < nat (nc m) \<and> r < nat (nr m) \<and>
       argmax_scrappie_matrix (Some m) = int (elt_offset m c r) \<and>
       max_scrappie_matrix (Some m) = data m ! elt_offset m c r \<and>
       (\<forall>c' r'. c' < nat (nc m) \<and> r' < nat (nr m) \<longrightarrow>
          \<not> flt_lt (max_scrappie_matrix (Some m)) (data m ! elt_offset m c' r')) \<and>
       (\<forall>c' r'. c' < nat (nc m) \<and> r' < nat (nr m) \<and> (c' < c \<or> (c' = c \<and> r' < r)) \<longrightarrow>
          \<not> flt_le (max_scrappie_matrix (Some m)) (data m ! elt_offset m c' r')) \<and>
       ((\<forall>c' r'. c' < nat (nc m) \<and> r' < nat (nr m) \<longrightarrow> \<not> isnan (data m ! elt_offset m c' r')) \<longrightarrow>
          (\<forall>c' r'. c' < nat (nc m) \<and> r' < nat (nr m) \<longrightarrow>
             flt_le (data m ! elt_offset m c' r') (max_scrappie_matrix (Some m))) \<and>
          (\<forall>c' r'. c' < nat (nc m) \<and> r' < nat (nr m) \<and> (c' < c \<or> (c' = c \<and> r' < r)) \<longrightarrow>
             flt_lt (data m ! elt_offset m c' r') (max_scrappie_matrix (Some m))))))"
proof -
  have absent: "argmax_scrappie_matrix None = - 1 \<and> max_scrappie_matrix None = NaN"
    by (simp add: argmax_scrappie_matrix_def max_scrappie_matrix_def)
  have e1: "argmax_scrappie_matrix (Some ex_cols) = 1 \<and> max_scrappie_matrix (Some ex_cols) = Fin 5 \<and>
      data ex_cols ! 1 = Fin 5"
    by (simp add: max_scrappie_matrix_def argmax_scrappie_matrix_def ex_cols_def max_step_def
        argmax_step_def upt_rec)
  have e2: "argmax_scrappie_matrix (Some ex_rows) = 4 \<and> max_scrappie_matrix (Some ex_rows) = Fin 5 \<and>
      data ex_rows ! 4 = Fin 5"
    by (simp add: max_scrappie_matrix_def argmax_scrappie_matrix_def ex_rows_def max_step_def
        argmax_step_def upt_rec)
  have gen: "\<exists>c r. c < nat (nc m) \<and> r < nat (nr m) \<and>
       argmax_scrappie_matrix (Some m) = int (elt_offset m c r) \<and>
       max_scrappie_matrix (Some m) = data m ! elt_offset m c r \<and>
       (\<forall>c' r'. c' < nat (nc m) \<and> r' < nat (nr m) \<longrightarrow>
          \<not> flt_lt (max_scrappie_matrix (Some m)) (data m ! elt_offset m c' r')) \<and>
       (\<forall>c' r'. c' < nat (nc m) \<and> r' < nat (nr m) \<and> (c' < c \<or> (c' = c \<and> r' < r)) \<longrightarrow>
          \<not> flt_le (max_scrappie_matrix (Some m)) (data m ! elt_offset m c' r')) \<and>
       ((\<forall>c' r'. c' < nat (nc m) \<and> r' < nat (nr m) \<longrightarrow> \<not> isnan (data m ! elt_offset m c' r')) \<longrightarrow>
          (\<forall>c' r'. c' < nat (nc m) \<and> r' < nat (nr m) \<longrightarrow>
             flt_le (data m ! elt_offset m c' r') (max_scrappie_matrix (Some m))) \<and>
          (\<forall>c' r'. c' < nat (nc m) \<and> r' < nat (nr m) \<and> (c' < c \<or> (c' = c \<and> r' < r)) \<longrightarrow>
             flt_lt (data m ! elt_offset m c' r') (max_scrappie_matrix (Some m))))"
    if wf: "wf_matrix m"
  proof -
    from argmax_general [OF wf] obtain c r where
      cr: "c < nat (nc m)" "r < nat (nr m)" and
      am: "argmax_scrappie_matrix (Some m) = int (elt_offset m c r)" and
      mx: "max_scrappie_matrix (Some m) = data m ! elt_offset m c r" and
      ub: "\<forall>c' r'. c' < nat (nc m) \<and> r' < nat (nr m) \<longrightarrow>
          \<not> flt_lt (max_scrappie_matrix (Some m)) (data m ! elt_offset m c' r')" and
      fst: "\<forall>c' r'. c' < nat (nc m) \<and> r' < nat (nr m) \<and> (c' < c \<or> (c' = c \<and> r' < r)) \<longrightarrow>
          \<not> flt_le (max_scrappie_matrix (Some m)) (data m ! elt_offset m c' r')"
      by blast
    have nn: "(\<forall>c' r'. c' < nat (nc m) \<and> r' < nat (nr m) \<longrightarrow>
             flt_le (data m ! elt_offset m c' r') (max_scrappie_matrix (Some m))) \<and>
          (\<forall>c' r'. c' < nat (nc m) \<and> r' < nat (nr m) \<and> (c' < c \<or> (c' = c \<and> r' < r)) \<longrightarrow>
             flt_lt (data m ! elt_offset m c' r') (max_scrappie_matrix (Some m)))"
      if fin: "\<forall>c' r'. c' < nat (nc m) \<and> r' < nat (nr m) \<longrightarrow> \<not> isnan (data m ! elt_offset m c' r')"
    proof -
      have mn: "\<not> isnan (max_scrappie_matrix (Some m))" using fin cr mx by simp
      show ?thesis
        using ub fst fin mn not_flt_lt_iff not_flt_le_iff by blast
    qed
    show ?thesis
      using cr am mx ub fst nn by blast
  qed
  show ?thesis using absent e1 e2 gen by blast
qed

theorem argmax_max_scrappie_matrix_witness:
  "wf_matrix ex_cols \<and>
   (\<exists>c r. c < nat (nc ex_cols) \<and> r < nat (nr ex_cols) \<and>
      argmax_scrappie_matrix (Some ex_cols) = int (elt_offset ex_cols c r) \<and>
      max_scrappie_matrix (Some ex_cols) = data ex_cols ! elt_offset ex_cols c r \<and>
      argmax_scrappie_matrix (Some ex_cols) = 1 \<and> max_scrappie_matrix (Some ex_cols) = Fin 5)"
proof -
  have wf: "wf_matrix ex_cols" by (simp add: wf_matrix_iff ex_cols_def)
  show ?thesis
    using wf argmax_max_scrappie_matrix_correct [of ex_cols] by blast
qed


text \<open>
  Claim C1.  \<^verbatim>\<open>min_scrappie_matrix\<close> and \<^verbatim>\<open>argmin_scrappie_matrix\<close> compare with the same
  \<^verbatim>\<open><\<close> as their \<open>max\<close> counterparts, so they return the maximum and its offset: on the
  one-column matrix with the logical elements 1 and 5 they return 5 and offset 1, where
  the least logical element is 1 at offset 0.  An absent matrix gives NaN and \<open>-1\<close>.
\<close>

theorem min_scrappie_matrix_reports_maximum:
  "min_scrappie_matrix x = max_scrappie_matrix x \<and>
   argmin_scrappie_matrix x = argmax_scrappie_matrix x \<and>
   min_scrappie_matrix None = NaN \<and> argmin_scrappie_matrix None = - 1 \<and>
   min_scrappie_matrix (Some \<lparr>nr = 2, nrq = 1, nc = 1, data = [Fin 1, Fin 5, Fin 0, Fin 0]\<rparr>) = Fin 5 \<and>
   argmin_scrappie_matrix (Some \<lparr>nr = 2, nrq = 1, nc = 1, data = [Fin 1, Fin 5, Fin 0, Fin 0]\<rparr>) = 1"
proof -
  have s: "min_step = max_step" "argmin_step = argmax_step"
    by (auto simp: fun_eq_iff min_step_def max_step_def argmin_step_def argmax_step_def)
  have g: "min_scrappie_matrix x = max_scrappie_matrix x \<and>
      argmin_scrappie_matrix x = argmax_scrappie_matrix x"
    unfolding min_scrappie_matrix_def max_scrappie_matrix_def argmin_scrappie_matrix_def
      argmax_scrappie_matrix_def s by simp
  have e: "min_scrappie_matrix (Some \<lparr>nr = 2, nrq = 1, nc = 1, data = [Fin 1, Fin 5, Fin 0, Fin 0]\<rparr>) = Fin 5 \<and>
      argmin_scrappie_matrix (Some \<lparr>nr = 2, nrq = 1, nc = 1, data = [Fin 1, Fin 5, Fin 0, Fin 0]\<rparr>) = 1"
    by (simp add: min_scrappie_matrix_def argmin_scrappie_matrix_def min_step_def argmin_step_def upt_rec)
  have n: "min_scrappie_matrix None = NaN \<and> argmin_scrappie_matrix None = - 1"
    by (simp add: min_scrappie_matrix_def argmin_scrappie_matrix_def)
  show ?thesis using g e n by blast
qed

section \<open>Allocation\<close>

lemma make_scrappie_matrix_ok:
  assumes nr: "0 < nr'" and nc: "0 < nc'"
    and fit: "4 * nrq_of nr' * nc' \<le> 2147483647"
    and ma: "malloc_result al = Some a" and aa: "aligned_alloc_ok al"
  shows "make_scrappie_matrix nd al h nr' nc' =
     Inr (h(a \<mapsto> \<lparr>nr = nr', nrq = nrq_of nr', nc = nc',
                     data = replicate (nat (4 * nrq_of nr' * nc')) (Fin 0)\<rparr>), Some a)"
proof -
  define q where "q = nrq_of nr'"
  define P where "P = q * nc'"
  have q: "0 < q" using nr by (simp add: q_def nrq_of_eq)
  have P4: "4 * P \<le> 2147483647" using fit by (simp add: P_def q_def mult.assoc)
  have Pq: "q \<le> P" unfolding P_def using q nc by (simp add: mult_le_cancel_left1)
  have Pn: "nc' \<le> P" unfolding P_def using q nc by (simp add: mult_le_cancel_right1)
  have P0: "0 < P" using Pq q by simp
  have s1: "to_size_t q = q" using q Pq P4 by (intro to_size_t_id) auto
  have s2: "to_size_t (q * 16) = q * 16" using q Pq P4 by (intro to_size_t_id) auto
  have s3: "to_size_t nc' = nc'" using nc Pn P4 by (intro to_size_t_id) auto
  have e: "q * 16 * nc' = 16 * P" by (simp add: P_def)
  have s4: "to_size_t (q * 16 * nc') = 16 * P" unfolding e using P0 P4 by (intro to_size_t_id) auto
  have d: "16 * P div (q * 16) = nc'"
  proof -
    have "16 * P = nc' * (q * 16)" by (simp add: P_def)
    then show ?thesis using q by simp
  qed
  have i: "to_int32 P = P" using P0 P4 by (intro to_int32_id) auto
  have s5: "to_size_t P = P" using P0 P4 by (intro to_size_t_id) auto
  have s6: "to_size_t (P * 16) = P * 16" using P0 P4 by (intro to_size_t_id) auto
  have b: "P * 16 div 4 = 4 * q * nc'" by (simp add: P_def)
  show ?thesis
    unfolding make_scrappie_matrix_def q_def [symmetric] Let_def
    using nr nc ma aa
    by (simp add: s1 s2 s3 s4 d P_def [symmetric] i s5 s6 b)
qed


text \<open>
  Claim C5.  The overflow check of \<^verbatim>\<open>make_scrappie_matrix\<close> works on \<^verbatim>\<open>size_t\<close> products,
  but the size that is allocated and cleared is \<^verbatim>\<open>nrq * nc * sizeof(__m128)\<close>, whose
  product \<^verbatim>\<open>nrq * nc\<close> is computed in \<^verbatim>\<open>int\<close>.  For \<open>nr = 1073741828\<close> and \<open>nc = 16\<close> that
  product is \<open>2\<^sup>3\<^sup>2 + 16\<close>: the check passes, and when the allocation succeeds the
  returned matrix has the shape \<open>nrq = 268435457\<close>, \<open>nc = 16\<close> over a buffer of 64 scalars
  instead of \<open>4 * nrq * nc = 17179869248\<close>.  (The check itself does reject a product that
  leaves \<^verbatim>\<open>size_t\<close>, as for \<open>nc = -1\<close> with \<^verbatim>\<open>NDEBUG\<close>.)
\<close>

theorem make_scrappie_matrix_truncated_buffer:
  "make_scrappie_matrix nd alloc_at_1 Map.empty 1073741828 16 =
     Inr (Map.empty(1 \<mapsto> \<lparr>nr = 1073741828, nrq = 268435457, nc = 16,
                             data = replicate 64 (Fin 0)\<rparr>), Some 1) \<and>
   4 * 268435457 * 16 = (17179869248 :: int) \<and>
   \<not> wf_matrix \<lparr>nr = 1073741828, nrq = 268435457, nc = 16, data = replicate 64 (Fin 0)\<rparr> \<and>
   make_scrappie_matrix True alloc_at_1 Map.empty 4 (- 1) = Inr (Map.empty, None)"
  by (simp add: make_scrappie_matrix_def alloc_at_1_def to_size_t_def to_int32_def Let_def
      wf_matrix_iff nrq_of_eq)


text \<open>
  Claim C9.  When the matrix behind \<open>M\<close> has the shape \<open>(nr, nc)\<close> already,
  \<^verbatim>\<open>remake_scrappie_matrix\<close> returns \<open>M\<close> and leaves the whole heap, so every element of
  the matrix, as it was.  When \<open>M\<close> is \<^verbatim>\<open>NULL\<close> or has another shape, \<open>M\<close> is released, and
  (for positive dimensions whose padded size fits an \<^verbatim>\<open>int\<close>, when the allocator succeeds)
  the result is a new well-formed matrix of shape \<open>(nr, nc)\<close> whose scalars are all zero.
\<close>

theorem remake_scrappie_matrix_frame:
  "(h a = Some m \<and> nr m = nr' \<and> nc m = nc' \<longrightarrow>
      remake_scrappie_matrix nd al h (Some a) nr' nc' = Inr (h, Some a)) \<and>
   ((M = None \<or> (\<exists>b mb. M = Some b \<and> h b = Some mb \<and> (nr mb \<noteq> nr' \<or> nc mb \<noteq> nc'))) \<and>
    0 < nr' \<and> 0 < nc' \<and> 4 * nrq_of nr' * nc' \<le> 2147483647 \<and>
    malloc_result al = Some a' \<and> aligned_alloc_ok al \<longrightarrow>
      (\<exists>h0 fresh.
         free_scrappie_matrix h M = Inr (h0, None) \<and>
         (\<forall>b. M = Some b \<longrightarrow> h0 b = None) \<and> (\<forall>b. M \<noteq> Some b \<longrightarrow> h0 b = h b) \<and>
         remake_scrappie_matrix nd al h M nr' nc' = Inr (h0(a' \<mapsto> fresh), Some a') \<and>
         wf_matrix fresh \<and> nr fresh = nr' \<and> nc fresh = nc' \<and>
         (\<forall>i<length (data fresh). data fresh ! i = Fin 0)))"
proof -
  have frame: "remake_scrappie_matrix nd al h (Some a) nr' nc' = Inr (h, Some a)"
    if "h a = Some m" "nr m = nr'" "nc m = nc'"
    using that by (simp add: remake_scrappie_matrix_def)
  have realloc: "\<exists>h0 fresh.
         free_scrappie_matrix h M = Inr (h0, None) \<and>
         (\<forall>b. M = Some b \<longrightarrow> h0 b = None) \<and> (\<forall>b. M \<noteq> Some b \<longrightarrow> h0 b = h b) \<and>
         remake_scrappie_matrix nd al h M nr' nc' = Inr (h0(a' \<mapsto> fresh), Some a') \<and>
         wf_matrix fresh \<and> nr fresh = nr' \<and> nc fresh = nc' \<and>
         (\<forall>i<length (data fresh). data fresh ! i = Fin 0)"
    if sh: "M = None \<or> (\<exists>b mb. M = Some b \<and> h b = Some mb \<and> (nr mb \<noteq> nr' \<or> nc mb \<noteq> nc'))"
      and nr: "0 < nr'" and nc: "0 < nc'"
      and fit: "4 * nrq_of nr' * nc' \<le> 2147483647"
      and ma: "malloc_result al = Some a'" and aa: "aligned_alloc_ok al"
  proof -
    define fresh where "fresh = \<lparr>nr = nr', nrq = nrq_of nr', nc = nc',
        data = replicate (nat (4 * nrq_of nr' * nc')) (Fin 0)\<rparr>"
    define h0 where "h0 = (case M of None \<Rightarrow> h | Some b \<Rightarrow> h(b := None))"
    have mk: "make_scrappie_matrix nd al h0 nr' nc' = Inr (h0(a' \<mapsto> fresh), Some a')"
      unfolding fresh_def by (rule make_scrappie_matrix_ok [OF nr nc fit ma aa])
    have q0: "0 \<le> nrq_of nr'" using nr by (simp add: nrq_of_eq)
    have wf: "wf_matrix fresh"
      unfolding wf_matrix_def fresh_def using nr nc fit q0 by simp
    have fr: "free_scrappie_matrix h M = Inr (h0, None)"
      using sh by (auto simp: free_scrappie_matrix_def h0_def)
    have rm: "remake_scrappie_matrix nd al h M nr' nc' = Inr (h0(a' \<mapsto> fresh), Some a')"
      using sh mk fr by (auto simp: remake_scrappie_matrix_def)
    have z: "\<forall>i<length (data fresh). data fresh ! i = Fin 0" by (simp add: fresh_def)
    have g: "(\<forall>b. M = Some b \<longrightarrow> h0 b = None) \<and> (\<forall>b. M \<noteq> Some b \<longrightarrow> h0 b = h b)"
      by (auto simp: h0_def split: option.splits)
    show ?thesis
      using fr rm wf z g by (intro exI [of _ h0] exI [of _ fresh]) (simp add: fresh_def)
  qed
  show ?thesis using frame realloc by blast
qed

theorem remake_scrappie_matrix_frame_witness:
  "heap_ex 0 = Some ex_cols \<and> nr ex_cols = 2 \<and> nc ex_cols = 2 \<and>
   remake_scrappie_matrix False alloc_at_1 heap_ex (Some 0) 2 2 = Inr (heap_ex, Some 0) \<and>
   (\<exists>h0 fresh.
      free_scrappie_matrix heap_ex (Some 0) = Inr (h0, None) \<and> h0 0 = None \<and>
      remake_scrappie_matrix False alloc_at_1 heap_ex (Some 0) 3 1 = Inr (h0(1 \<mapsto> fresh), Some 1) \<and>
      wf_matrix fresh \<and> nr fresh = 3 \<and> nc fresh = 1)"
proof -
  have 1: "heap_ex 0 = Some ex_cols \<and> nr ex_cols = 2 \<and> nc ex_cols = 2"
    by (simp add: heap_ex_def ex_cols_def)
  have 2: "(Some 0 = None \<or> (\<exists>b mb. Some (0::nat) = Some b \<and> heap_ex b = Some mb \<and> (nr mb \<noteq> 3 \<or> nc mb \<noteq> 1))) \<and>
    (0::int) < 3 \<and> (0::int) < 1 \<and> 4 * nrq_of 3 * 1 \<le> 2147483647 \<and>
    malloc_result alloc_at_1 = Some 1 \<and> aligned_alloc_ok alloc_at_1"
    by (simp add: nrq_of_eq heap_ex_def ex_cols_def alloc_at_1_def)
  show ?thesis
    using 1 2
      remake_scrappie_matrix_frame [of heap_ex 0 ex_cols 2 2 False alloc_at_1 "Some 0" 1]
      remake_scrappie_matrix_frame [of heap_ex 0 ex_cols 3 1 False alloc_at_1 "Some 0" 1]
    by blast
qed

section \<open>Conversion between flat arrays and padded matrices\<close>

lemma memcpy_f_ok:
  assumes "0 \<le> n" "soff + nat n \<le> length src" "doff + nat n \<le> length dst"
  shows "\<exists>d'. memcpy_f dst doff src soff n = Inr d' \<and> length d' = length dst \<and>
     (\<forall>i<length dst. d' ! i =
        (if doff \<le> i \<and> i < doff + nat n then src ! (soff + (i - doff)) else dst ! i))"
proof -
  define A where "A = take doff dst"
  define B where "B = take (nat n) (drop soff src)"
  define C where "C = drop (doff + nat n) dst"
  have lA: "length A = doff" using assms by (simp add: A_def)
  have lB: "length B = nat n" using assms by (simp add: B_def)
  have lC: "length C = length dst - (doff + nat n)" by (simp add: C_def)
  have m: "memcpy_f dst doff src soff n = Inr (A @ B @ C)"
    using assms by (simp add: memcpy_f_def A_def B_def C_def)
  have l: "length (A @ B @ C) = length dst" using assms lA lB lC by simp
  have "(A @ B @ C) ! i = (if doff \<le> i \<and> i < doff + nat n then src ! (soff + (i - doff)) else dst ! i)"
    if "i < length dst" for i
  proof -
    consider "i < doff" | "doff \<le> i" "i < doff + nat n" | "doff + nat n \<le> i" by linarith
    then show ?thesis
    proof cases
      case 1
      then have "(A @ B @ C) ! i = A ! i" by (simp add: nth_append lA)
      also have "\<dots> = dst ! i" using 1 by (simp add: A_def)
      finally show ?thesis using 1 by simp
    next
      case 2
      then have k: "i - doff < nat n" by linarith
      have "(A @ B @ C) ! i = (B @ C) ! (i - doff)" using 2 by (simp add: nth_append lA)
      also have "\<dots> = B ! (i - doff)" using k by (simp add: nth_append lB)
      also have "\<dots> = src ! (soff + (i - doff))" using k assms by (simp add: B_def)
      finally show ?thesis using 2 by simp
    next
      case 3
      then have k: "\<not> i - doff < nat n" "\<not> i < doff" by linarith+
      have "(A @ B @ C) ! i = (B @ C) ! (i - doff)" using k by (simp add: nth_append lA)
      also have "\<dots> = C ! (i - doff - nat n)" using k by (simp add: nth_append lB)
      also have "\<dots> = dst ! i" using 3 that by (simp add: C_def)
      finally show ?thesis using 3 by simp
    qed
  qed
  with m l show ?thesis by blast
qed

lemma div_mod_decomp:
  fixes k :: nat
  assumes "i div k = c"
  shows "i = c * k + i mod k"
proof -
  have "c * k + i mod k = i div k * k + i mod k" using assms by simp
  also have "\<dots> = i" by (rule div_mult_mod_eq)
  finally show ?thesis by simp
qed

lemma column_range:
  fixes q :: nat
  assumes "0 < q" "n \<le> 4 * q"
  shows "(c * q * 4 \<le> i \<and> i < c * q * 4 + n) = (i div (4 * q) = c \<and> i mod (4 * q) < n)"
proof
  assume a: "c * q * 4 \<le> i \<and> i < c * q * 4 + n"
  define r where "r = i - c * q * 4"
  have i: "i = r + c * (4 * q)" using a by (simp add: r_def)
  have rl: "r < 4 * q" using a assms(2) unfolding r_def by linarith
  have "i div (4 * q) = c" unfolding i using rl assms(1) by simp
  moreover have "i mod (4 * q) = r" unfolding i using rl by simp
  moreover have "r < n" using a unfolding r_def by linarith
  ultimately show "i div (4 * q) = c \<and> i mod (4 * q) < n" by simp
next
  assume a: "i div (4 * q) = c \<and> i mod (4 * q) < n"
  have e: "c * q * 4 = c * (4 * q)" by simp
  have "i = c * (4 * q) + i mod (4 * q)" using a by (intro div_mod_decomp) simp
  then show "c * q * 4 \<le> i \<and> i < c * q * 4 + n" unfolding e using a by linarith
qed

lemma column_index:
  fixes q :: nat
  assumes "i div (4 * q) = c"
  shows "i - c * q * 4 = i mod (4 * q)"
proof -
  have e: "c * q * 4 = c * (4 * q)" by simp
  have "i = c * (4 * q) + i mod (4 * q)" using assms by (rule div_mod_decomp)
  then show ?thesis unfolding e by linarith
qed

lemma copy_columns_ok:
  fixes q :: nat
  assumes "0 < q" "0 \<le> nr'" "nat nr' \<le> 4 * q"
    and "\<forall>c\<in>set cols. c * q * 4 + nat nr' \<le> length d \<and> c * nat nr' + nat nr' \<le> length x"
  shows "\<exists>d'. copy_columns d x (int q) nr' cols = Inr d' \<and> length d' = length d \<and>
     (\<forall>i<length d. d' ! i =
        (if i div (4 * q) \<in> set cols \<and> i mod (4 * q) < nat nr'
         then x ! (i div (4 * q) * nat nr' + i mod (4 * q)) else d ! i))"
  using assms(4)
proof (induction cols arbitrary: d)
  case Nil
  then show ?case by simp
next
  case (Cons c cols)
  from Cons.prems have b: "c * q * 4 + nat nr' \<le> length d" "c * nat nr' + nat nr' \<le> length x"
    by auto
  from memcpy_f_ok [OF assms(2) b(2) b(1)] obtain d1 where
    m: "memcpy_f d (c * q * 4) x (c * nat nr') nr' = Inr d1" and l1: "length d1 = length d" and
    n1: "\<forall>i<length d. d1 ! i =
        (if c * q * 4 \<le> i \<and> i < c * q * 4 + nat nr' then x ! (c * nat nr' + (i - c * q * 4)) else d ! i)"
    by blast
  have rest: "\<forall>c\<in>set cols. c * q * 4 + nat nr' \<le> length d1 \<and> c * nat nr' + nat nr' \<le> length x"
    using Cons.prems l1 by auto
  from Cons.IH [OF rest] obtain d' where
    r: "copy_columns d1 x (int q) nr' cols = Inr d'" and l: "length d' = length d1" and
    n: "\<forall>i<length d1. d' ! i =
        (if i div (4 * q) \<in> set cols \<and> i mod (4 * q) < nat nr'
         then x ! (i div (4 * q) * nat nr' + i mod (4 * q)) else d1 ! i)"
    by blast
  have rng: "(c * q * 4 \<le> i \<and> i < c * q * 4 + nat nr') = (i div (4 * q) = c \<and> i mod (4 * q) < nat nr')" for i
    by (rule column_range [OF assms(1) assms(3)])
  have val: "c * nat nr' + (i - c * q * 4) = i div (4 * q) * nat nr' + i mod (4 * q)"
    if "i div (4 * q) = c" for i
    using column_index [OF that] that by simp
  have "copy_columns d x (int q) nr' (c # cols) = Inr d'" using m r by simp
  moreover have "length d' = length d" using l l1 by simp
  moreover have "\<forall>i<length d. d' ! i =
        (if i div (4 * q) \<in> set (c # cols) \<and> i mod (4 * q) < nat nr'
         then x ! (i div (4 * q) * nat nr' + i mod (4 * q)) else d ! i)"
  proof (intro allI impI)
    fix i assume il: "i < length d"
    show "d' ! i = (if i div (4 * q) \<in> set (c # cols) \<and> i mod (4 * q) < nat nr'
         then x ! (i div (4 * q) * nat nr' + i mod (4 * q)) else d ! i)"
      using n [rule_format, of i] n1 [rule_format, OF il] il l1 rng [of i] val [of i]
      by auto
  qed
  ultimately show ?case by blast
qed

lemma fold_update_nth:
  assumes "\<forall>p\<in>set ps. G p = G' (F p)"
  shows "length (fold (\<lambda>p res. res[F p := G p]) ps res0) = length res0 \<and>
     (\<forall>j<length res0. fold (\<lambda>p res. res[F p := G p]) ps res0 ! j =
        (if j \<in> F ` set ps then G' j else res0 ! j))"
  using assms
proof (induction ps arbitrary: res0)
  case Nil
  then show ?case by simp
next
  case (Cons p ps)
  have ih: "length (fold (\<lambda>p res. res[F p := G p]) ps (res0[F p := G p])) = length (res0[F p := G p]) \<and>
     (\<forall>j<length (res0[F p := G p]). fold (\<lambda>p res. res[F p := G p]) ps (res0[F p := G p]) ! j =
        (if j \<in> F ` set ps then G' j else (res0[F p := G p]) ! j))"
    using Cons.prems by (intro Cons.IH) simp
  have gp: "G p = G' (F p)" using Cons.prems by simp
  show ?case
    using ih gp by (auto simp: nth_list_update)
qed

lemma array_from_scrappie_matrix_ok:
  assumes wf: "wf_matrix m"
  shows "\<exists>res. array_from_scrappie_matrix True (Some m) = Some res \<and>
     length res = nat (nr m) * nat (nc m) \<and>
     (\<forall>j<length res. res ! j =
        data m ! (j div nat (nr m) * nat (nrq m) * 4 + j mod nat (nr m)))"
proof -
  define n where "n = nat (nr m)"
  define k where "k = nat (nc m)"
  define q where "q = nat (nrq m)"
  define d where "d = data m"
  have n0: "0 < n" and k0: "0 < k" using wf by (auto simp: wf_matrix_def n_def k_def)
  have q0: "0 < nrq m" using wf by (auto simp: wf_matrix_iff)
  have le: "nr m * nc m \<le> 4 * nrq m * nc m"
  proof -
    have "nr m \<le> 4 * nrq m" using wf by (auto simp: wf_matrix_iff)
    moreover have "0 < nc m" using wf by (auto simp: wf_matrix_def)
    ultimately show ?thesis by (simp add: mult_right_mono)
  qed
  have pos: "0 < nr m * nc m" using wf by (auto simp: wf_matrix_def)
  have b4: "4 * nrq m * nc m \<le> 2147483647" using wf by (auto simp: wf_matrix_def)
  have fit: "nr m * nc m \<le> 2147483647" using le b4 by linarith
  have nelt: "nat (to_size_t (to_int32 (nr m * nc m))) = n * k"
  proof -
    have "to_int32 (nr m * nc m) = nr m * nc m" using pos fit by (intro to_int32_id) auto
    moreover have "to_size_t (nr m * nc m) = nr m * nc m" using pos fit by (intro to_size_t_id) auto
    moreover have "0 \<le> nr m" using wf by (auto simp: wf_matrix_def)
    ultimately show ?thesis by (simp add: n_def k_def nat_mult_distrib)
  qed
  define F where "F = (\<lambda>p :: nat \<times> nat. fst p * n + snd p)"
  define G where "G = (\<lambda>p :: nat \<times> nat. d ! (fst p * q * 4 + snd p))"
  define G' where "G' = (\<lambda>j. d ! (j div n * q * 4 + j mod n))"
  define ps where "ps = concat (map (\<lambda>c. map (Pair c) [0..<n]) [0..<k])"
  define res where "res = fold (\<lambda>p r. r[F p := G p]) ps (replicate (n * k) (Fin 0))"
  have a: "array_from_scrappie_matrix True (Some m) =
      Some (fold (\<lambda>c. fold (\<lambda>r res. res[F (c, r) := G (c, r)]) [0..<n]) [0..<k] (replicate (n * k) (Fin 0)))"
    unfolding array_from_scrappie_matrix_def
    by (simp add: Let_def nelt n_def [symmetric] k_def [symmetric] q_def [symmetric]
        d_def [symmetric] F_def G_def)
  have b: "fold (\<lambda>c. fold (\<lambda>r res. res[F (c, r) := G (c, r)]) [0..<n]) [0..<k] (replicate (n * k) (Fin 0)) = res"
    unfolding res_def ps_def
    by (rule fold_nested_flat [where f = "\<lambda>p r. r[F p := G p]" and g = Pair])
  have sp: "set ps = {(c, r). c < k \<and> r < n}" unfolding ps_def by auto
  have gg: "\<forall>p\<in>set ps. G p = G' (F p)"
    unfolding sp using n0 by (auto simp: G_def G'_def F_def)
  from fold_update_nth [OF gg, of "replicate (n * k) (Fin 0)"]
  have l: "length res = n * k" and
    v: "\<forall>j<n * k. res ! j = (if j \<in> F ` set ps then G' j else replicate (n * k) (Fin 0) ! j)"
    unfolding res_def by auto
  have im: "j \<in> F ` set ps" if "j < n * k" for j
  proof -
    have "j div n < k" using that n0 by (simp add: less_mult_imp_div_less mult.commute)
    moreover have "j mod n < n" using n0 by simp
    moreover have "F (j div n, j mod n) = j" by (simp add: F_def)
    ultimately show ?thesis unfolding sp by (metis (mono_tags, lifting) case_prodI image_eqI mem_Collect_eq)
  qed
  have "\<forall>j<length res. res ! j = G' j" using v im l by simp
  then show ?thesis
    using a b l unfolding G'_def n_def k_def q_def d_def by simp
qed

lemma div_mod_of_sum:
  fixes k :: nat
  assumes "r < k"
  shows "(c * k + r) div k = c \<and> (c * k + r) mod k = r"
  using assms by simp


text \<open>
  Claim C3.  For positive \<open>nr\<close> and \<open>nc\<close>, an array \<open>x\<close> of exactly \<open>nr * nc\<close> floats and
  a padded size that fits an \<^verbatim>\<open>int\<close>, \<^verbatim>\<open>mat_from_array\<close> succeeds whenever the allocator
  does, \<^verbatim>\<open>array_from_scrappie_matrix\<close> of its result is \<open>x\<close> again, and every padding lane
  of the result is zero.
\<close>

theorem flat_array_round_trip:
  assumes nr: "0 < nr'" and nc: "0 < nc'"
    and lx: "int (length x) = nr' * nc'"
    and fit: "4 * nrq_of nr' * nc' \<le> 2147483647"
    and ma: "malloc_result al = Some a" and aa: "aligned_alloc_ok al"
  shows "\<exists>h' m. mat_from_array nd al h x nr' nc' = Inr (h', Some a) \<and> h' a = Some m \<and>
     wf_matrix m \<and> nr m = nr' \<and> nc m = nc' \<and>
     array_from_scrappie_matrix True (Some m) = Some x \<and>
     (\<forall>c r. c < nat nc' \<and> nat nr' \<le> r \<and> r < 4 * nat (nrq m) \<longrightarrow>
        data m ! (c * nat (nrq m) * 4 + r) = Fin 0)"
proof -
  define q where "q = nrq_of nr'"
  define qn where "qn = nat q"
  define n where "n = nat nr'"
  define k where "k = nat nc'"
  define d0 where "d0 = replicate (nat (4 * q * nc')) (Fin 0)"
  define M0 where "M0 = \<lparr>nr = nr', nrq = q, nc = nc', data = d0\<rparr>"
  have q0: "0 < q" and nq: "nr' \<le> 4 * q" using nr by (auto simp: q_def nrq_of_eq)
  have qn0: "0 < qn" and qi: "int qn = q" using q0 by (auto simp: qn_def)
  have n0: "0 < n" and k0: "0 < k" using nr nc by (auto simp: n_def k_def)
  have nle: "n \<le> 4 * qn" using nq nr q0 by (auto simp: n_def qn_def)
  have ld0: "length d0 = 4 * qn * k"
    using q0 nc by (simp add: d0_def qn_def k_def nat_mult_distrib)
  have lxn: "length x = n * k"
  proof -
    have "int (length x) = int (n * k)" using lx nr nc by (simp add: n_def k_def)
    then show ?thesis by linarith
  qed
  have mk: "make_scrappie_matrix nd al h nr' nc' = Inr (h(a \<mapsto> M0), Some a)"
    unfolding M0_def d0_def q_def by (rule make_scrappie_matrix_ok [OF nr nc fit ma aa])
  have bnd: "\<forall>c\<in>set [0..<k]. c * qn * 4 + nat nr' \<le> length d0 \<and> c * nat nr' + nat nr' \<le> length x"
  proof
    fix c assume "c \<in> set [0..<k]"
    then have ck: "Suc c \<le> k" by simp
    have "c * qn * 4 + n \<le> Suc c * (4 * qn)" using nle by simp
    also have "\<dots> \<le> k * (4 * qn)" using ck by (rule mult_le_mono1)
    finally have 1: "c * qn * 4 + n \<le> length d0" by (simp add: ld0 mult.commute)
    have "c * n + n = Suc c * n" by simp
    also have "\<dots> \<le> k * n" using ck by (rule mult_le_mono1)
    finally have 2: "c * n + n \<le> length x" by (simp add: lxn mult.commute)
    show "c * qn * 4 + nat nr' \<le> length d0 \<and> c * nat nr' + nat nr' \<le> length x"
      using 1 2 by (simp add: n_def)
  qed
  have nr0: "0 \<le> nr'" using nr by simp
  have nle': "nat nr' \<le> 4 * qn" using nle by (simp add: n_def)
  from copy_columns_ok [OF qn0 nr0 nle' bnd] obtain d' where
    cc: "copy_columns d0 x (int qn) nr' [0..<k] = Inr d'" and ld: "length d' = length d0" and
    nth: "\<forall>i<length d0. d' ! i =
        (if i div (4 * qn) \<in> set [0..<k] \<and> i mod (4 * qn) < n
         then x ! (i div (4 * qn) * n + i mod (4 * qn)) else d0 ! i)"
    unfolding n_def by blast
  define m where "m = M0\<lparr>data := d'\<rparr>"
  have mfa: "mat_from_array nd al h x nr' nc' = Inr ((h(a \<mapsto> M0))(a \<mapsto> m), Some a)"
    unfolding mat_from_array_def mk
    using cc by (simp add: deref_def M0_def m_def qi k_def)
  have sel: "nr m = nr'" "nc m = nc'" "nrq m = q" "data m = d'"
    by (simp_all add: m_def M0_def)
  have wf: "wf_matrix m"
    unfolding wf_matrix_def sel using nr nc fit ld ld0 q0 nc
    by (simp add: q_def [symmetric] qn_def k_def nat_mult_distrib)
  from array_from_scrappie_matrix_ok [OF wf] obtain res where
    af: "array_from_scrappie_matrix True (Some m) = Some res" and lr: "length res = n * k" and
    rv: "\<forall>j<length res. res ! j = d' ! (j div n * qn * 4 + j mod n)"
    unfolding sel n_def k_def qn_def by blast
  have "res = x"
  proof (rule nth_equalityI)
    show "length res = length x" using lr lxn by simp
  next
    fix j assume j: "j < length res"
    define c where "c = j div n"
    define r where "r = j mod n"
    have ck: "c < k" using j lr n0 by (simp add: c_def less_mult_imp_div_less mult.commute)
    have rn: "r < n" using n0 by (simp add: r_def)
    then have r4: "r < 4 * qn" using nle by simp
    define i where "i = c * (4 * qn) + r"
    have dm: "i div (4 * qn) = c \<and> i mod (4 * qn) = r"
      unfolding i_def by (rule div_mod_of_sum [OF r4])
    have "i < Suc c * (4 * qn)" using r4 by (simp add: i_def)
    also have "\<dots> \<le> k * (4 * qn)" using ck by (intro mult_le_mono1) simp
    finally have il: "i < length d0" by (simp add: ld0 mult.commute)
    have ie: "j div n * qn * 4 + j mod n = i" by (simp add: c_def r_def i_def)
    have "res ! j = d' ! (j div n * qn * 4 + j mod n)" using rv j by blast
    then have "res ! j = d' ! i" by (simp only: ie)
    also have "\<dots> = x ! (c * n + r)" using nth il dm ck rn by simp
    also have "c * n + r = j" by (simp add: c_def r_def)
    finally show "res ! j = x ! j" .
  qed
  moreover have "data m ! (c * nat (nrq m) * 4 + r) = Fin 0"
    if "c < nat nc'" "nat nr' \<le> r" "r < 4 * nat (nrq m)" for c r
  proof -
    have ck: "c < k" and rn: "\<not> r < n" and r4: "r < 4 * qn"
      using that by (auto simp: k_def n_def sel qn_def)
    define i where "i = c * (4 * qn) + r"
    have dm: "i div (4 * qn) = c \<and> i mod (4 * qn) = r"
      unfolding i_def by (rule div_mod_of_sum [OF r4])
    have "i < Suc c * (4 * qn)" using r4 by (simp add: i_def)
    also have "\<dots> \<le> k * (4 * qn)" using ck by (intro mult_le_mono1) simp
    finally have il: "i < length d0" by (simp add: ld0 mult.commute)
    have "d' ! i = d0 ! i" using nth il dm rn by simp
    also have "\<dots> = Fin 0" using il unfolding d0_def by simp
    finally have "d' ! i = Fin 0" .
    moreover have "c * nat (nrq m) * 4 + r = i" by (simp add: sel qn_def [symmetric] i_def)
    ultimately show ?thesis by (simp add: sel)
  qed
  ultimately show ?thesis
    using mfa af sel wf by (intro exI [of _ "(h(a \<mapsto> M0))(a \<mapsto> m)"] exI [of _ m]) simp
qed

theorem flat_array_round_trip_witness:
  "(0::int) < 2 \<and> int (length [Fin 1, Fin 5, Fin 3, Fin 2]) = 2 * 2 \<and>
   4 * nrq_of 2 * 2 \<le> (2147483647::int) \<and>
   malloc_result alloc_at_1 = Some 1 \<and> aligned_alloc_ok alloc_at_1 \<and>
   (\<exists>h' m. mat_from_array False alloc_at_1 heap_ex [Fin 1, Fin 5, Fin 3, Fin 2] 2 2 = Inr (h', Some 1) \<and>
      h' 1 = Some m \<and>
      array_from_scrappie_matrix True (Some m) = Some [Fin 1, Fin 5, Fin 3, Fin 2])"
proof -
  have 1: "(0::int) < 2" by simp
  have 2: "int (length [Fin 1, Fin 5, Fin 3, Fin 2]) = 2 * 2" by simp
  have 3: "4 * nrq_of 2 * 2 \<le> (2147483647::int)" by (simp add: nrq_of_eq)
  have 4: "malloc_result alloc_at_1 = Some 1" by (simp add: alloc_at_1_def)
  have 5: "aligned_alloc_ok alloc_at_1" by (simp add: alloc_at_1_def)
  from flat_array_round_trip [OF 1 1 2 3 4 5, of False heap_ex]
  show ?thesis using 1 2 3 4 5 by blast
qed


section \<open>Equality within a tolerance\<close>













section \<open>Absent inputs of the affine maps\<close>

text \<open>
  Claim C7, as stated, fails: with \<open>X\<close> present and \<open>W\<close> or \<open>b\<close> absent, \<^verbatim>\<open>affine_map\<close>
  stops at an assertion in a debug build and dereferences \<^verbatim>\<open>NULL\<close> with \<^verbatim>\<open>NDEBUG\<close>; it
  does not return \<^verbatim>\<open>NULL\<close>.  The same holds for \<open>Wf\<close> in \<^verbatim>\<open>affine_map2\<close>.
\<close>

theorem affine_map_absent_input_counterexample:
  "affine_map False alloc_at_1 sgemm_keep heap_ex (Some 0) None (Some 0) None = Inl AssertionFailed \<and>
   affine_map False alloc_at_1 sgemm_keep heap_ex (Some 0) (Some 0) None None = Inl AssertionFailed \<and>
   affine_map True alloc_at_1 sgemm_keep heap_ex (Some 0) None (Some 0) None = Inl UndefinedBehaviour \<and>
   affine_map2 False alloc_at_1 sgemm_keep heap_ex (Some 0) (Some 0) None (Some 0) (Some 0) None
     = Inl AssertionFailed"
  by (simp add: affine_map_def affine_map2_def deref_def)


text \<open>
  Claim C7, amended.  \<^verbatim>\<open>affine_map\<close> returns \<^verbatim>\<open>NULL\<close> and changes nothing when \<open>X\<close> is
  absent, and so does \<^verbatim>\<open>affine_map2\<close> when \<open>Xf\<close> or \<open>Xb\<close> is absent.  With these inputs
  present, an absent \<open>W\<close> or \<open>b\<close> (\<open>Wf\<close>, \<open>Wb\<close> or \<open>b\<close>) fails an assertion in a debug
  build, and with \<^verbatim>\<open>NDEBUG\<close> an absent \<open>W\<close> (\<open>Wf\<close>) is dereferenced.
\<close>

theorem affine_map_absent_inputs:
  "affine_map nd al g h None W b C = Inr (h, None) \<and>
   affine_map2 nd al g h None Xb Wf Wb b C = Inr (h, None) \<and>
   affine_map2 nd al g h Xf None Wf Wb b C = Inr (h, None) \<and>
   (X \<noteq> None \<and> (W = None \<or> b = None) \<longrightarrow>
      affine_map False al g h X W b C = Inl AssertionFailed) \<and>
   (Xf \<noteq> None \<and> Xb \<noteq> None \<and> (Wf = None \<or> Wb = None \<or> b = None) \<longrightarrow>
      affine_map2 False al g h Xf Xb Wf Wb b C = Inl AssertionFailed) \<and>
   (X \<noteq> None \<longrightarrow> affine_map True al g h X None b C = Inl UndefinedBehaviour) \<and>
   (Xf \<noteq> None \<and> Xb \<noteq> None \<longrightarrow>
      affine_map2 True al g h Xf Xb None Wb b C = Inl UndefinedBehaviour)"
proof -
  have a1: "affine_map nd al g h None W b C = Inr (h, None)"
    by (simp add: affine_map_def)
  have a2: "affine_map2 nd al g h None Xb Wf Wb b C = Inr (h, None)"
    by (simp add: affine_map2_def)
  have a3: "affine_map2 nd al g h Xf None Wf Wb b C = Inr (h, None)"
    by (cases Xf) (simp_all add: affine_map2_def)
  have b1: "affine_map False al g h X W b C = Inl AssertionFailed"
    if "X \<noteq> None" "W = None \<or> b = None"
    using that by (cases X; cases W) (simp_all add: affine_map_def)
  have b2: "affine_map2 False al g h Xf Xb Wf Wb b C = Inl AssertionFailed"
    if "Xf \<noteq> None" "Xb \<noteq> None" "Wf = None \<or> Wb = None \<or> b = None"
    using that by (cases Xf; cases Xb; cases Wf; cases Wb) (simp_all add: affine_map2_def)
  have c1: "affine_map True al g h X None b C = Inl UndefinedBehaviour" if "X \<noteq> None"
    using that by (cases X) (simp_all add: affine_map_def deref_def)
  have c2: "affine_map2 True al g h Xf Xb None Wb b C = Inl UndefinedBehaviour"
    if "Xf \<noteq> None" "Xb \<noteq> None"
    using that by (cases Xf; cases Xb) (simp_all add: affine_map2_def deref_def)
  show ?thesis using a1 a2 a3 b1 b2 c1 c2 by blast
qed

theorem affine_map_absent_inputs_witness:
  "Some (0::nat) \<noteq> None \<and>
   affine_map False alloc_at_1 sgemm_keep heap_ex (Some 0) None None None = Inl AssertionFailed \<and>
   affine_map2 False alloc_at_1 sgemm_keep heap_ex (Some 0) (Some 0) (Some 0) None None None
     = Inl AssertionFailed \<and>
   affine_map True alloc_at_1 sgemm_keep heap_ex (Some 0) None (Some 0) None = Inl UndefinedBehaviour \<and>
   affine_map2 True alloc_at_1 sgemm_keep heap_ex (Some 0) (Some 0) None (Some 0) (Some 0) None
     = Inl UndefinedBehaviour"
proof -
  have 1: "Some (0::nat) \<noteq> None" by simp
  show ?thesis
    using 1
      affine_map_absent_inputs [where nd = False and al = alloc_at_1 and g = sgemm_keep
        and h = heap_ex and X = "Some 0" and W = None and b = None and C = None
        and Xf = "Some 0" and Xb = "Some 0" and Wf = "Some 0" and Wb = None]
      affine_map_absent_inputs [where nd = True and al = alloc_at_1 and g = sgemm_keep
        and h = heap_ex and X = "Some 0" and W = None and b = "Some 0" and C = None
        and Xf = "Some 0" and Xb = "Some 0" and Wf = None and Wb = "Some 0"]
    by blast
qed

text \<open>On present inputs the kernel runs: the bias is copied into both columns of a new
  output at address 1 (the multiply of this evaluation leaves \<open>C\<close> alone).\<close>

lemma affine_map_runs:
  "\<exists>h' m. affine_map False alloc_at_1 sgemm_keep heap_ex (Some 0) (Some 0) (Some 0) None = Inr (h', Some 1)
     \<and> h' 1 = Some m \<and> data m = [Fin 1, Fin 5, Fin 0, Fin 0, Fin 1, Fin 5, Fin 0, Fin 0]"
  by (simp add: affine_map_def deref_def heap_ex_def ex_cols_def remake_scrappie_matrix_def
      free_scrappie_matrix_def make_scrappie_matrix_def alloc_at_1_def Let_def to_size_t_def to_int32_def
      broadcast_bias_def gemm_acc_def sgemm_keep_def memcpy_f_def upt_rec nrq_of_eq)

section \<open>Rejection of characters that are not bases\<close>

lemma of_char_toupper:
  "(of_char (toupper c) :: nat) =
     (if 97 \<le> (of_char c :: nat) \<and> (of_char c :: nat) \<le> 122 then of_char c - 32 else of_char c)"
proof -
  have "(of_char c :: nat) - 32 < 256"
    using nat_of_char_less_256 [of c] by linarith
  then show ?thesis by (simp add: toupper_def Let_def)
qed

lemma char_eq_nat: "(c = d) = ((of_char c :: nat) = of_char d)"
  by simp

lemma toupper_is:
  assumes "(of_char u :: nat) = n" "65 \<le> n" "n \<le> 90" "(of_char l :: nat) = n + 32"
  shows "(toupper c = u) = (c = u \<or> c = l)"
proof -
  have "(toupper c = u) = ((of_char (toupper c) :: nat) = n)"
    using assms(1) by (simp add: char_eq_nat [of "toupper c" u])
  also have "\<dots> = ((of_char c :: nat) = n \<or> (of_char c :: nat) = n + 32)"
    unfolding of_char_toupper using assms(2,3) by auto
  also have "\<dots> = (c = u \<or> c = l)"
    using assms(1,4) by (simp add: char_eq_nat [of c u] char_eq_nat [of c l])
  finally show ?thesis .
qed

lemma base_to_int_cases:
  "base_to_int c True =
     (if c = CHR ''A'' \<or> c = CHR ''a'' then 0
      else if c = CHR ''C'' \<or> c = CHR ''c'' then 1
      else if c = CHR ''G'' \<or> c = CHR ''g'' then 2
      else if c = CHR ''T'' \<or> c = CHR ''t'' then 3
      else - 1)"
proof -
  have a: "(toupper c = CHR ''A'') = (c = CHR ''A'' \<or> c = CHR ''a'')"
    by (rule toupper_is [where n = 65]) simp_all
  have b: "(toupper c = CHR ''C'') = (c = CHR ''C'' \<or> c = CHR ''c'')"
    by (rule toupper_is [where n = 67]) simp_all
  have g: "(toupper c = CHR ''G'') = (c = CHR ''G'' \<or> c = CHR ''g'')"
    by (rule toupper_is [where n = 71]) simp_all
  have t: "(toupper c = CHR ''T'') = (c = CHR ''T'' \<or> c = CHR ''t'')"
    by (rule toupper_is [where n = 84]) simp_all
  show ?thesis
    by (simp only: base_to_int_def Let_def if_True a b g t)
qed

lemma base_to_int_bad:
  "(base_to_int c True = - 1) = (c \<notin> set ''ACGTacgt'')"
  by (simp add: base_to_int_cases)

lemma encode_loop_bad:
  "\<exists>j. i \<le> j \<and> j < n \<and> j < length seq \<and> base_to_int (seq ! j) True = - 1 \<Longrightarrow>
     encode_loop seq n i iseq = Inr None"
proof (induction seq n i iseq rule: encode_loop.induct)
  case (1 seq n i iseq)
  from "1.prems" obtain j where
    j: "i \<le> j" "j < n" "j < length seq" "base_to_int (seq ! j) True = - 1" by blast
  then have i: "i < n" by simp
  show ?case
  proof (cases "base_to_int (seq ! i) True = - 1")
    case True
    have il: "i < length seq"
    proof (rule ccontr)
      assume "\<not> i < length seq"
      then show False using j by simp
    qed
    show ?thesis
      by (subst encode_loop.simps) (simp add: i il True Let_def)
  next
    case False
    then have "i \<noteq> j" using j by auto
    then have sj: "Suc i \<le> j" using j by simp
    then have il: "i < length seq" using j by simp
    have ih: "encode_loop seq n (Suc i) (iseq[i := base_to_int (seq ! i) True]) = Inr None"
    proof (rule "1.IH" [OF i il refl refl])
      show "- 1 \<noteq> base_to_int (seq ! i) True" using False by simp
      show "\<exists>j. Suc i \<le> j \<and> j < n \<and> j < length seq \<and> base_to_int (seq ! j) True = - 1"
        using sj j by blast
    qed
    show ?thesis
      by (subst encode_loop.simps) (simp add: i il False Let_def ih)
  qed
qed

lemma encode_loop_good:
  "i \<le> n \<Longrightarrow> n \<le> length seq \<Longrightarrow> length iseq = n \<Longrightarrow>
   \<forall>j. i \<le> j \<and> j < n \<longrightarrow> base_to_int (seq ! j) True \<noteq> - 1 \<Longrightarrow>
     encode_loop seq n i iseq =
       Inr (Some (take i iseq @ map (\<lambda>c. base_to_int c True) (drop i (take n seq))))"
proof (induction seq n i iseq rule: encode_loop.induct)
  case (1 seq n i iseq)
  show ?case
  proof (cases "i < n")
    case False
    then have "i = n" using "1.prems" by simp
    then show ?thesis
      using "1.prems" by (subst encode_loop.simps) simp
  next
    case True
    then have il: "i < length seq" using "1.prems" by simp
    define ib where "ib = base_to_int (seq ! i) True"
    have nb: "- 1 \<noteq> ib" using "1.prems" True by (auto simp: ib_def)
    have ih: "encode_loop seq n (Suc i) (iseq[i := ib]) =
        Inr (Some (take (Suc i) (iseq[i := ib]) @
          map (\<lambda>c. base_to_int c True) (drop (Suc i) (take n seq))))"
      unfolding ib_def
    proof (rule "1.IH" [OF True il refl refl])
      show "- 1 \<noteq> base_to_int (seq ! i) True" using nb by (simp add: ib_def)
      show "Suc i \<le> n" using True by simp
      show "n \<le> length seq" using "1.prems" by simp
      show "length (iseq[i := base_to_int (seq ! i) True]) = n" using "1.prems" by simp
      show "\<forall>j. Suc i \<le> j \<and> j < n \<longrightarrow> base_to_int (seq ! j) True \<noteq> - 1"
        using "1.prems" by auto
    qed
    have t: "take (Suc i) (iseq[i := ib]) = take i iseq @ [ib]"
      using True "1.prems" by (simp add: take_Suc_conv_app_nth)
    have d: "drop i (take n seq) = seq ! i # drop (Suc i) (take n seq)"
      using True "1.prems" by (simp add: Cons_nth_drop_Suc [symmetric])
    have "encode_loop seq n i iseq = encode_loop seq n (Suc i) (iseq[i := ib])"
      using nb by (subst encode_loop.simps) (simp add: True il Let_def ib_def)
    then show ?thesis
      unfolding ih t d by (simp add: ib_def)
  qed
qed

text \<open>
  Claim C8.  \<^verbatim>\<open>base_to_int\<close> with lower case allowed maps \<open>A, C, G, T\<close> and \<open>a, c, g, t\<close> to
  \<open>0, 1, 2, 3\<close> and every other character to \<open>-1\<close>.  When one of the first \<open>n\<close>
  characters of the sequence is another character, \<^verbatim>\<open>encode_bases_to_integers\<close> returns
  \<^verbatim>\<open>NULL\<close> and so does \<^verbatim>\<open>sequence_to_squiggle\<close>; whatever \<^verbatim>\<open>calloc\<close> does, no matrix is
  returned for such a sequence.  When all of the first \<open>n\<close> characters are bases, the whole
  encoding is handed to the forward pass.
\<close>

theorem sequence_to_squiggle_encoding:
  "base_to_int c True =
     (if c = CHR ''A'' \<or> c = CHR ''a'' then 0
      else if c = CHR ''C'' \<or> c = CHR ''c'' then 1
      else if c = CHR ''G'' \<or> c = CHR ''g'' then 2
      else if c = CHR ''T'' \<or> c = CHR ''t'' then 3
      else - 1) \<and>
   (i < n \<and> i < length seq \<and> seq ! i \<notin> set ''ACGTacgt'' \<longrightarrow>
      encode_bases_to_integers True seq n = Inr None \<and>
      sequence_to_squiggle True dna (Some seq) n rescale = Inr None \<and>
      (\<forall>calloc_ok m. sequence_to_squiggle calloc_ok dna (Some seq) n rescale \<noteq> Inr (Some m))) \<and>
   (n \<le> length seq \<and> set (take n seq) \<subseteq> set ''ACGTacgt'' \<longrightarrow>
      encode_bases_to_integers True seq n =
        Inr (Some (map (\<lambda>c. base_to_int c True) (take n seq))) \<and>
      sequence_to_squiggle True dna (Some seq) n rescale =
        Inr (dna (map (\<lambda>c. base_to_int c True) (take n seq)) n rescale))"
proof -
  have bad: "encode_bases_to_integers True seq n = Inr None \<and>
      sequence_to_squiggle True dna (Some seq) n rescale = Inr None \<and>
      (\<forall>calloc_ok m. sequence_to_squiggle calloc_ok dna (Some seq) n rescale \<noteq> Inr (Some m))"
    if h: "i < n" "i < length seq" "seq ! i \<notin> set ''ACGTacgt''"
  proof -
    have "base_to_int (seq ! i) True = - 1" using h(3) base_to_int_bad [of "seq ! i"] by blast
    then have "\<exists>j. 0 \<le> j \<and> j < n \<and> j < length seq \<and> base_to_int (seq ! j) True = - 1"
      using h by blast
    then have l: "encode_loop seq n 0 (replicate n 0) = Inr None" by (rule encode_loop_bad)
    have e: "encode_bases_to_integers True seq n = Inr None"
      using l by (simp add: encode_bases_to_integers_def)
    have f: "encode_bases_to_integers False seq n = Inl UndefinedBehaviour"
      using h(1) by (simp add: encode_bases_to_integers_def)
    have s: "sequence_to_squiggle calloc_ok dna (Some seq) n rescale \<noteq> Inr (Some m)" for calloc_ok m
      using e f by (cases calloc_ok) (simp_all add: sequence_to_squiggle_def)
    show ?thesis using e s by (simp add: sequence_to_squiggle_def)
  qed
  have good: "encode_bases_to_integers True seq n =
        Inr (Some (map (\<lambda>c. base_to_int c True) (take n seq))) \<and>
      sequence_to_squiggle True dna (Some seq) n rescale =
        Inr (dna (map (\<lambda>c. base_to_int c True) (take n seq)) n rescale)"
    if h: "n \<le> length seq" "set (take n seq) \<subseteq> set ''ACGTacgt''"
  proof -
    have "base_to_int (seq ! j) True \<noteq> - 1" if "j < n" for j
    proof -
      have "seq ! j = take n seq ! j" using that by simp
      moreover have "take n seq ! j \<in> set (take n seq)" using that h(1) by (intro nth_mem) simp
      ultimately have "seq ! j \<in> set ''ACGTacgt''" using h(2) by auto
      then show ?thesis using base_to_int_bad [of "seq ! j"] by blast
    qed
    then have nb: "\<forall>j. 0 \<le> j \<and> j < n \<longrightarrow> base_to_int (seq ! j) True \<noteq> - 1" by blast
    have "encode_loop seq n 0 (replicate n 0) =
        Inr (Some (take 0 (replicate n 0) @ map (\<lambda>c. base_to_int c True) (drop 0 (take n seq))))"
      by (rule encode_loop_good [OF _ h(1) _ nb]) simp_all
    then have e: "encode_bases_to_integers True seq n =
        Inr (Some (map (\<lambda>c. base_to_int c True) (take n seq)))"
      by (simp add: encode_bases_to_integers_def)
    show ?thesis using e by (simp add: sequence_to_squiggle_def)
  qed
  show ?thesis using base_to_int_cases [of c] bad good by blast
qed

theorem sequence_to_squiggle_encoding_witness:
  "(3::nat) < 4 \<and> 3 < length ''ACGX'' \<and> ''ACGX'' ! 3 \<notin> set ''ACGTacgt'' \<and>
   sequence_to_squiggle True dna_const (Some ''ACGX'') 4 True = Inr None \<and>
   4 \<le> length ''acGT'' \<and> set (take 4 ''acGT'') \<subseteq> set ''ACGTacgt'' \<and>
   encode_bases_to_integers True ''acGT'' 4 = Inr (Some [0, 1, 2, 3])"
proof -
  have 1: "(3::nat) < 4 \<and> 3 < length ''ACGX'' \<and> ''ACGX'' ! 3 \<notin> set ''ACGTacgt''" by simp
  have 2: "4 \<le> length ''acGT'' \<and> set (take 4 ''acGT'') \<subseteq> set ''ACGTacgt''" by simp
  have 3: "sequence_to_squiggle True dna_const (Some ''ACGX'') 4 True = Inr None"
    using 1 sequence_to_squiggle_encoding [of _ 3 4 "''ACGX''" dna_const True] by blast
  have "encode_bases_to_integers True ''acGT'' 4 =
      Inr (Some (map (\<lambda>c. base_to_int c True) (take 4 ''acGT'')))"
    using 2 sequence_to_squiggle_encoding [of _ _ 4 "''acGT''"] by blast
  then have 4: "encode_bases_to_integers True ''acGT'' 4 = Inr (Some [0, 1, 2, 3])"
    by (simp add: base_to_int_cases)
  show ?thesis using 1 2 3 4 by blast
qed

section \<open>Bounds of the validators\<close>

text \<open>A scan whose loop condition holds below \<open>K\<close> and fails at \<open>K\<close> tests the elements
  \<open>i, \<dots>, K - 1\<close>.\<close>

lemma bound_scan_first:
  assumes c: "\<forall>j<K. cont j" and nK: "\<not> cont K" and len: "K \<le> length v"
    and small: "K \<le> 2147483647"
  shows "i \<le> K \<Longrightarrow> bound_scan cont bad v i = Inr (\<not> (\<exists>j. i \<le> j \<and> j < K \<and> bad (v ! j)))"
proof (induction "K - i" arbitrary: i)
  case 0
  then have "i = K" by simp
  then show ?case using nK by (subst bound_scan.simps) auto
next
  case (Suc d)
  then have iK: "i < K" by simp
  have ci: "cont i" using c iK by blast
  have il: "i < length v" using iK len by simp
  have ni: "i \<noteq> 2147483647" using iK small by simp
  show ?case
  proof (cases "bad (v ! i)")
    case True
    then show ?thesis using ci il iK by (subst bound_scan.simps) auto
  next
    case False
    have ih: "bound_scan cont bad v (Suc i) = Inr (\<not> (\<exists>j. Suc i \<le> j \<and> j < K \<and> bad (v ! j)))"
      using Suc.hyps(2) iK by (intro Suc.hyps(1)) simp_all
    have "(\<exists>j. i \<le> j \<and> j < K \<and> bad (v ! j)) = (\<exists>j. Suc i \<le> j \<and> j < K \<and> bad (v ! j))"
      using False by (metis Suc_leI Suc_leD le_neq_implies_less)
    then show ?thesis using ci il ni False ih by (subst bound_scan.simps) simp
  qed
qed

lemma float_of_int_exact:
  assumes "\<bar>i\<bar> \<le> 2 ^ 24"
  shows "float_of_int i = Fin (of_int i)"
proof (cases "\<bar>i\<bar> < 2 ^ 24")
  case True
  then show ?thesis unfolding float_of_int_def by (rule round32_of_int)
next
  case False
  then have "i = 16777216 \<or> i = - 16777216" using assms by auto
  then show ?thesis
    using round32_exact [of 1 24] round32_exact [of "- 1" 24]
    by (auto simp: float_of_int_def)
qed

lemma flt_lt_NaN_right: "\<not> flt_lt x NaN"
  by (cases x) auto

lemma validate_vector_first:
  assumes c: "\<forall>j<K. flt_lt (float_of_int (int j)) n"
    and nK: "\<not> flt_lt (float_of_int (int K)) n"
    and len: "K \<le> length v" and small: "K \<le> 2147483647"
  shows "validate_vector False (Some v) n lower upper =
     Inr (\<not> (\<exists>i<K. flt_lt (v ! i) lower \<or> flt_lt upper (v ! i)))"
proof -
  define bl where "bl = (\<not> (\<exists>i<K. flt_lt (v ! i) lower))"
  define bu where "bu = (\<not> (\<exists>i<K. flt_lt upper (v ! i)))"
  have lo: "bound_scan (\<lambda>i. flt_lt (float_of_int (int i)) n) (\<lambda>x. flt_lt x lower) v 0 = Inr bl"
    using bound_scan_first [where cont = "\<lambda>i. flt_lt (float_of_int (int i)) n"
        and bad = "\<lambda>x. flt_lt x lower" and i = 0, OF c nK len small]
    by (simp add: bl_def)
  have up: "bound_scan (\<lambda>i. flt_lt (float_of_int (int i)) n) (\<lambda>x. flt_lt upper x) v 0 = Inr bu"
    using bound_scan_first [where cont = "\<lambda>i. flt_lt (float_of_int (int i)) n"
        and bad = "\<lambda>x. flt_lt upper x" and i = 0, OF c nK len small]
    by (simp add: bu_def)
  have nl: "bl" if "isnan lower"
    using that unfolding bl_def by (cases lower) (simp_all add: flt_lt_NaN_right)
  have nu: "bu" if "isnan upper"
    using that unfolding bu_def by (cases upper) auto
  have "validate_vector False (Some v) n lower upper = Inr (bl \<and> bu)"
    using nl nu
    by (cases "isnan lower"; cases "isnan upper"; cases bl; cases bu)
      (simp_all add: validate_vector_def lo up)
  moreover have "(bl \<and> bu) = (\<not> (\<exists>i<K. flt_lt (v ! i) lower \<or> flt_lt upper (v ! i)))"
    unfolding bl_def bu_def by blast
  ultimately show ?thesis by simp
qed

text \<open>Up to \<open>2\<^sup>2\<^sup>4\<close> the conversion of the counter is exact and the loop reads the first \<open>n\<close>
  elements.\<close>

lemma validate_vector_iff:
  assumes k0: "0 \<le> k" and k24: "k \<le> 2 ^ 24" and len: "k \<le> int (length v)"
  shows "validate_vector False (Some v) (Fin (of_int k)) lower upper =
     Inr (\<not> (\<exists>i<nat k. flt_lt (v ! i) lower \<or> flt_lt upper (v ! i)))"
proof (rule validate_vector_first)
  show "\<forall>j<nat k. flt_lt (float_of_int (int j)) (Fin (of_int k))"
  proof (intro allI impI)
    fix j assume j: "j < nat k"
    then have "\<bar>int j\<bar> \<le> 2 ^ 24" using k24 by simp
    then have "float_of_int (int j) = Fin (of_int (int j))" by (rule float_of_int_exact)
    then show "flt_lt (float_of_int (int j)) (Fin (of_int k))" using j by simp
  qed
  have "\<bar>int (nat k)\<bar> \<le> 2 ^ 24" using k0 k24 by simp
  then have "float_of_int (int (nat k)) = Fin (of_int (int (nat k)))" by (rule float_of_int_exact)
  then show "\<not> flt_lt (float_of_int (int (nat k))) (Fin (of_int k))" using k0 by simp
  show "nat k \<le> length v" using len by simp
  show "nat k \<le> 2147483647" using k24 by simp
qed

text \<open>From \<open>2\<^sup>2\<^sup>4\<close> on the conversion of the counter rounds: \<open>16777217\<close> becomes \<open>16777216\<close> and
  \<open>16777219\<close> becomes \<open>16777220\<close>, so that the loop for \<open>n = 16777220\<close> ends at the counter
  \<open>16777219\<close>.\<close>

lemma float_count_16777220:
  "(\<forall>j<16777219. flt_lt (float_of_int (int j)) (Fin 16777220)) \<and>
   \<not> flt_lt (float_of_int (int 16777219)) (Fin 16777220)"
proof (intro conjI allI impI)
  fix j :: nat assume j: "j < 16777219"
  have a: "float_of_int 16777217 = Fin 16777216"
    using round32_in_binade [of 24 16777217] by (simp add: float_of_int_def rne_def)
  have b: "float_of_int 16777218 = Fin 16777218"
    using round32_exact [of 8388609 1] by (simp add: float_of_int_def)
  consider "int j \<le> 16777216" | "int j = 16777217" | "int j = 16777218" using j by linarith
  then show "flt_lt (float_of_int (int j)) (Fin 16777220)"
  proof cases
    case 1
    then have "\<bar>int j\<bar> \<le> 2 ^ 24" by simp
    then have "float_of_int (int j) = Fin (of_int (int j))" by (rule float_of_int_exact)
    then show ?thesis using 1 by simp
  next
    case 2
    then show ?thesis using a by simp
  next
    case 3
    then show ?thesis using b by simp
  qed
next
  have "float_of_int 16777219 = Fin 16777220"
    using round32_in_binade [of 24 16777219] by (simp add: float_of_int_def rne_def)
  then show "\<not> flt_lt (float_of_int (int 16777219)) (Fin 16777220)" by simp
qed

lemma long_vec_nth: "j < 16777219 \<Longrightarrow> long_vec ! j = Fin 0"
  unfolding long_vec_def by (simp only: nth_append length_replicate if_True nth_replicate)

lemma long_vec_last: "long_vec ! 16777219 = Fin 5"
  unfolding long_vec_def
  by (simp only: nth_append length_replicate less_irrefl if_False diff_self_eq_0 nth_Cons_0)

lemma length_long_vec: "length long_vec = 16777220"
  unfolding long_vec_def by (simp only: length_append length_replicate list.size)

lemma validate_ivector_iff:
  assumes inb: "ni \<le> int (length iv)" and small: "ni \<le> 2147483647"
  shows "validate_ivector False (Some iv) ni li ui =
     Inr (\<not> (\<exists>i. int i < ni \<and> (iv ! i < li \<or> ui < iv ! i)))"
proof -
  define bl where "bl = (\<not> (\<exists>i. int i < ni \<and> iv ! i < li))"
  define bu where "bu = (\<not> (\<exists>i. int i < ni \<and> ui < iv ! i))"
  have c: "\<forall>j<nat ni. int j < ni" by auto
  have nK: "\<not> int (nat ni) < ni" by simp
  have len: "nat ni \<le> length iv" using inb by simp
  have sm: "nat ni \<le> 2147483647" using small by simp
  have e: "(\<exists>j. 0 \<le> j \<and> j < nat ni \<and> P j) = (\<exists>i. int i < ni \<and> P i)" for P
    by (simp add: zless_nat_eq_int_zless)
  have lo: "bound_scan (\<lambda>i. int i < ni) (\<lambda>x. li > x) iv 0 = Inr bl"
    using bound_scan_first [where cont = "\<lambda>i. int i < ni" and bad = "\<lambda>x. li > x" and i = 0,
        OF c nK len sm]
    unfolding bl_def e by simp
  have up: "bound_scan (\<lambda>i. int i < ni) (\<lambda>x. ui < x) iv 0 = Inr bu"
    using bound_scan_first [where cont = "\<lambda>i. int i < ni" and bad = "\<lambda>x. ui < x" and i = 0,
        OF c nK len sm]
    unfolding bu_def e by simp
  have "validate_ivector False (Some iv) ni li ui = Inr (bl \<and> bu)"
    by (cases bl; cases bu) (simp_all add: validate_ivector_def lo up)
  moreover have "(bl \<and> bu) = (\<not> (\<exists>i. int i < ni \<and> (iv ! i < li \<or> ui < iv ! i)))"
    unfolding bl_def bu_def by blast
  ultimately show ?thesis by simp
qed

lemma list_ex_grid:
  "list_ex (\<lambda>c. list_ex (\<lambda>r. P c r) [0..<n]) [0..<k] = (\<exists>c r. c < k \<and> r < n \<and> P c r)"
  by (simp add: list_ex_iff Bex_def)

lemma validate_scrappie_matrix_bounds:
  assumes wf: "wf_matrix m"
  shows "validate_scrappie_matrix False (Some m) lower upper NaN False =
     Inr (\<not> (\<exists>c r. c < nat (nc m) \<and> r < nat (nr m) \<and>
        (flt_lt (fadd (data m ! elt_offset m c r) FLT_EPSILON) lower \<or>
         flt_lt (fadd upper FLT_EPSILON) (data m ! elt_offset m c r))))"
proof -
  define bl where "bl = (\<exists>c r. c < nat (nc m) \<and> r < nat (nr m) \<and>
      flt_lt (fadd (data m ! elt_offset m c r) FLT_EPSILON) lower)"
  define bu where "bu = (\<exists>c r. c < nat (nc m) \<and> r < nat (nr m) \<and>
      flt_lt (fadd upper FLT_EPSILON) (data m ! elt_offset m c r))"
  have a: "0 < nc m" "0 < nr m" "0 < nrq m" "nr m \<le> 4 * nrq m"
    using wf by (auto simp: wf_matrix_iff)
  have ld: "nat (nrq m * 4) = nat (nrq m) * 4" using a by (simp add: nat_mult_distrib)
  have off: "c * (nat (nrq m) * 4) + r = elt_offset m c r" for c r
    by (simp add: elt_offset_def)
  have lo: "list_ex (\<lambda>c. list_ex (\<lambda>r. flt_lt (fadd (data m ! (c * (nat (nrq m) * 4) + r)) FLT_EPSILON) lower)
      [0..<nat (nr m)]) [0..<nat (nc m)] = bl"
    unfolding bl_def off by (rule list_ex_grid)
  have up: "list_ex (\<lambda>c. list_ex (\<lambda>r. flt_lt (fadd upper FLT_EPSILON) (data m ! (c * (nat (nrq m) * 4) + r)))
      [0..<nat (nr m)]) [0..<nat (nc m)] = bu"
    unfolding bu_def off by (rule list_ex_grid)
  have nl: "\<not> bl" if "isnan lower"
    using that unfolding bl_def by (cases lower) (simp_all add: flt_lt_NaN_right)
  have nu: "\<not> bu" if "isnan upper"
    using that unfolding bu_def by (cases upper) simp_all
  have "validate_scrappie_matrix False (Some m) lower upper NaN False = Inr (\<not> bl \<and> \<not> bu)"
    using a nl nu
    by (cases "isnan lower"; cases "isnan upper"; cases bl; cases bu)
      (simp_all add: validate_scrappie_matrix_def Let_def ld lo up)
  moreover have "(\<not> bl \<and> \<not> bu) = (\<not> (\<exists>c r. c < nat (nc m) \<and> r < nat (nr m) \<and>
        (flt_lt (fadd (data m ! elt_offset m c r) FLT_EPSILON) lower \<or>
         flt_lt (fadd upper FLT_EPSILON) (data m ! elt_offset m c r))))"
    unfolding bl_def bu_def by blast
  ultimately show ?thesis by simp
qed

text \<open>
  Claim C10.  In a debug build \<^verbatim>\<open>validate_vector\<close> and \<^verbatim>\<open>validate_ivector\<close> return false
  for an absent vector.  For a vector of at least \<open>n\<close> elements, \<^verbatim>\<open>validate_ivector\<close> returns
  false exactly when one of the first \<open>n\<close> elements is strictly below \<open>lower\<close> or strictly
  above \<open>upper\<close>, and so does \<^verbatim>\<open>validate_vector\<close> when \<open>n\<close> is an integer from \<open>0\<close> to \<open>2\<^sup>2\<^sup>4\<close>.
  Its \<open>n\<close> is a \<^verbatim>\<open>float\<close>, though, and beyond \<open>2\<^sup>2\<^sup>4\<close> the claim fails: for \<open>n = 16777220\<close> the
  loop ends at the counter \<open>16777219\<close>, which the comparison rounds to \<open>16777220\<close>, and a
  vector whose last element \<open>5\<close> exceeds the upper bound \<open>1\<close> is accepted.
  \<^verbatim>\<open>validate_scrappie_matrix\<close> (no mask value, no finiteness check) returns false exactly
  when a logical element \<open>x\<close> has \<^verbatim>\<open>x + FLT_EPSILON < lower\<close> or \<^verbatim>\<open>x > upper + FLT_EPSILON\<close> in
  binary32 arithmetic: the element \<open>0\<close> against the lower bound \<open>2\<^sup>-\<^sup>2\<^sup>4\<close>, or against the
  upper bound \<open>-2\<^sup>-\<^sup>2\<^sup>4\<close>, is rejected by \<^verbatim>\<open>validate_vector\<close> and accepted by
  \<^verbatim>\<open>validate_scrappie_matrix\<close>, and the element \<open>2 + 2\<^sup>-\<^sup>2\<^sup>2\<close> is accepted against the lower
  bound \<open>2 + 2\<^sup>-\<^sup>2\<^sup>1\<close>, to which the sum with \<^verbatim>\<open>FLT_EPSILON\<close> is rounded.
\<close>

theorem validators_exact_bounds:
  "validate_vector False None n lower upper = Inr False \<and>
   validate_ivector False None ni li ui = Inr False \<and>
   (0 \<le> k \<and> k \<le> 2 ^ 24 \<and> k \<le> int (length v) \<longrightarrow>
      validate_vector False (Some v) (Fin (of_int k)) lower upper =
        Inr (\<not> (\<exists>i<nat k. flt_lt (v ! i) lower \<or> flt_lt upper (v ! i)))) \<and>
   (ni \<le> int (length iv) \<and> ni \<le> 2147483647 \<longrightarrow>
      validate_ivector False (Some iv) ni li ui =
        Inr (\<not> (\<exists>i. int i < ni \<and> (iv ! i < li \<or> ui < iv ! i)))) \<and>
   (wf_matrix m \<longrightarrow>
      validate_scrappie_matrix False (Some m) lower upper NaN False =
        Inr (\<not> (\<exists>c r. c < nat (nc m) \<and> r < nat (nr m) \<and>
          (flt_lt (fadd (data m ! elt_offset m c r) FLT_EPSILON) lower \<or>
           flt_lt (fadd upper FLT_EPSILON) (data m ! elt_offset m c r))))) \<and>
   length long_vec = 16777220 \<and> long_vec ! 16777219 = Fin 5 \<and>
   validate_vector False (Some long_vec) (Fin 16777220) (Fin 0) (Fin 1) = Inr True \<and>
   validate_vector False (Some [Fin 0]) (Fin 1) (Fin (1 / 16777216)) NaN = Inr False \<and>
   validate_scrappie_matrix False (Some zero_1x1) (Fin (1 / 16777216)) NaN NaN False = Inr True \<and>
   validate_vector False (Some [Fin 0]) (Fin 1) NaN (Fin (- 1 / 16777216)) = Inr False \<and>
   validate_scrappie_matrix False (Some zero_1x1) NaN (Fin (- 1 / 16777216)) NaN False = Inr True \<and>
   validate_scrappie_matrix False (Some (one_1x1 (Fin (8388609 / 4194304))))
     (Fin (4194305 / 2097152)) NaN NaN False = Inr True \<and>
   (8388609 / 4194304 + 1 / 8388608 < (4194305 / 2097152 :: real))"
proof -
  have a: "validate_vector False None n lower upper = Inr False \<and>
      validate_ivector False None ni li ui = Inr False"
    by (simp add: validate_vector_def validate_ivector_def)
  have lv: "validate_vector False (Some long_vec) (Fin 16777220) (Fin 0) (Fin 1) = Inr True"
  proof -
    have c: "\<forall>j<16777219. flt_lt (float_of_int (int j)) (Fin 16777220)"
      and nK: "\<not> flt_lt (float_of_int (int 16777219)) (Fin 16777220)"
      using float_count_16777220 by blast+
    have len: "16777219 \<le> length long_vec" by (simp add: length_long_vec)
    have "\<not> (\<exists>i<16777219. flt_lt (long_vec ! i) (Fin 0) \<or> flt_lt (Fin 1) (long_vec ! i))"
      by (simp add: long_vec_nth)
    then show ?thesis
      using validate_vector_first [OF c nK len, of "Fin 0" "Fin 1"] by simp
  qed
  have one: "validate_vector False (Some [Fin 0]) (Fin 1) lo up =
      Inr (\<not> (\<exists>i<nat 1. flt_lt ([Fin 0] ! i) lo \<or> flt_lt up ([Fin 0] ! i)))" for lo up
    using validate_vector_iff [of 1 "[Fin 0]" lo up] by simp
  have e1: "validate_vector False (Some [Fin 0]) (Fin 1) (Fin (1 / 16777216)) NaN = Inr False"
    unfolding one by simp
  have e2: "validate_vector False (Some [Fin 0]) (Fin 1) NaN (Fin (- 1 / 16777216)) = Inr False"
    unfolding one by simp
  have r1: "round32 (1 / 8388608) = Fin (1 / 8388608)"
    using round32_exact [of 1 "- 23"] by (simp add: power_int_minus)
  have r2: "round32 (1 / 16777216) = Fin (1 / 16777216)"
    using round32_exact [of 1 "- 24"] by (simp add: power_int_minus)
  have r3: "round32 (16777219 / 8388608) = Fin (4194305 / 2097152)"
    using round32_in_binade [of 1 "16777219 / 8388608"] by (simp add: rne_def power_int_minus)
  have e3: "validate_scrappie_matrix False (Some zero_1x1) (Fin (1 / 16777216)) NaN NaN False = Inr True"
    by (simp add: validate_scrappie_matrix_def zero_1x1_def FLT_EPSILON_def Let_def r1)
  have e4: "validate_scrappie_matrix False (Some zero_1x1) NaN (Fin (- 1 / 16777216)) NaN False = Inr True"
    by (simp add: validate_scrappie_matrix_def zero_1x1_def FLT_EPSILON_def Let_def r2)
  have e5: "validate_scrappie_matrix False (Some (one_1x1 (Fin (8388609 / 4194304))))
     (Fin (4194305 / 2097152)) NaN NaN False = Inr True"
    by (simp add: validate_scrappie_matrix_def one_1x1_def FLT_EPSILON_def Let_def r3)
  have e6: "8388609 / 4194304 + 1 / 8388608 < (4194305 / 2097152 :: real)" by simp
  show ?thesis
    using a lv e1 e2 e3 e4 e5 e6 length_long_vec long_vec_last
      validate_vector_iff [of k v lower upper]
      validate_ivector_iff [of ni iv li ui] validate_scrappie_matrix_bounds [of m lower upper]
    by blast
qed

theorem validators_exact_bounds_witness:
  "validate_vector False (Some [Fin 1, Fin 3]) (Fin 2) (Fin 1) (Fin 3) = Inr True \<and>
   validate_vector False (Some [Fin 1, Fin 3]) (Fin 2) (Fin 2) (Fin 3) = Inr False \<and>
   (2::int) \<le> int (length [1, 5 :: int]) \<and>
   validate_ivector False (Some [1, 5]) 2 1 4 = Inr False \<and>
   wf_matrix zero_1x1 \<and>
   validate_scrappie_matrix False (Some zero_1x1) (Fin (1 / 16777216)) NaN NaN False = Inr True"
proof -
  have 1: "(0::int) \<le> 2 \<and> (2::int) \<le> 2 ^ 24 \<and> 2 \<le> int (length [Fin 1, Fin 3])" by simp
  have 2: "(2::int) \<le> int (length [1, 5 :: int]) \<and> (2::int) \<le> 2147483647" by simp
  have 3: "wf_matrix zero_1x1" by (simp add: wf_matrix_iff zero_1x1_def)
  have a: "\<not> (\<exists>i<nat 2. flt_lt ([Fin 1, Fin 3] ! i) (Fin 1) \<or> flt_lt (Fin 3) ([Fin 1, Fin 3] ! i))"
  proof
    assume "\<exists>i<nat 2. flt_lt ([Fin 1, Fin 3] ! i) (Fin 1) \<or> flt_lt (Fin 3) ([Fin 1, Fin 3] ! i)"
    then obtain i where i: "i < nat 2"
      and d: "flt_lt ([Fin 1, Fin 3] ! i) (Fin 1) \<or> flt_lt (Fin 3) ([Fin 1, Fin 3] ! i)"
      by blast
    from i have "i = 0 \<or> i = 1" by auto
    then show False using d by auto
  qed
  have b: "\<exists>i<nat 2. flt_lt ([Fin 1, Fin 3] ! i) (Fin 2) \<or> flt_lt (Fin 3) ([Fin 1, Fin 3] ! i)"
    by (rule exI [of _ 0]) simp
  have c: "\<exists>i. int i < 2 \<and> ([1, 5] ! i < (1::int) \<or> (4::int) < [1, 5] ! i)"
    by (rule exI [of _ 1]) simp
  have v1: "validate_vector False (Some [Fin 1, Fin 3]) (Fin 2) (Fin 1) (Fin 3) = Inr True"
    using 1 a validators_exact_bounds [where k = 2 and v = "[Fin 1, Fin 3]"
        and lower = "Fin 1" and upper = "Fin 3"]
    by simp
  have v2: "validate_vector False (Some [Fin 1, Fin 3]) (Fin 2) (Fin 2) (Fin 3) = Inr False"
    using 1 b validators_exact_bounds [where k = 2 and v = "[Fin 1, Fin 3]"
        and lower = "Fin 2" and upper = "Fin 3"]
    by simp
  have v3: "validate_ivector False (Some [1, 5]) 2 1 4 = Inr False"
    using 2 c validators_exact_bounds [where ni = 2 and iv = "[1, 5]" and li = 1 and ui = 4]
    by simp
  have v4: "validate_scrappie_matrix False (Some zero_1x1) (Fin (1 / 16777216)) NaN NaN False = Inr True"
    using validators_exact_bounds [where m = zero_1x1] by blast
  show ?thesis using 2 3 v1 v2 v3 v4 by blast
qed


section \<open>Normalisation and padding\<close>

subsection \<open>The loop body, scalar by scalar\<close>















subsection \<open>A padding lane that is not finite\<close>






subsection \<open>Accumulated rounding error of sums of non-negative numbers\<close>




subsection \<open>Relative errors\<close>




subsection \<open>The total of a column with zero padding\<close>





subsection \<open>The reciprocal of the total and the scaled entries\<close>









end
